theory Spec2Isabelle
  imports Main
begin

section \<open>Data model of the dependency tree (lib/install/deps.js)\<close>

text \<open>
  The JavaScript mutates a graph of objects: tree nodes point to their children, to their
  parent and to the nodes that require them.  The embedding keeps an explicit store: a
  reference is a natural number, the heap maps references to node records, and a fresh
  reference is the counter \<open>nextref\<close>.  Package records are values.  Objects used as
  dictionaries (dependencies, shrinkwrap dependencies) are association lists in key
  order, as \<open>Object.keys\<close> enumerates them; their keys are distinct.  A string is
  truthy when it is not empty.
\<close>

type_synonym ref = nat

datatype error =
    Error (message: string) (parents: "string list")
  | TypeError
  | ReferenceError string

record requested =
  spec :: string
  rtype :: string

datatype shrinkwrap =
  Shrinkwrap (sw_version: string) (sw_dependencies: "(string \<times> shrinkwrap) list option")

type_synonym swdeps = "(string \<times> shrinkwrap) list"

record package =
  name :: string
  version :: string
  requested :: "requested option"
  shrinkwrap :: "swdeps option option"
  dependencies :: "(string \<times> string) list option"
  optionalDependencies :: "(string \<times> string) list option"
  devDependencies :: "(string \<times> string) list option"

record node =
  package :: package
  children :: "ref list option"
  parent :: "ref option"
  requiredby :: "ref list option"
  loaded :: bool
  path :: string
  realpath :: string

type_synonym heap = "ref \<Rightarrow> node option"

record state =
  heap :: heap
  nextref :: ref
  warnings :: "string list"

text \<open>
  What the module takes from outside: the metadata fetcher (a spec and the path of the
  requiring node give an error or a resolved package record), \<open>semver.satisfies\<close> (a
  version and a range), and node's \<open>path.join\<close> and \<open>path.resolve\<close> on three segments.
  They are parameters of every function below.
\<close>

record externals =
  fetchPackageMetadata :: "string \<Rightarrow> string \<Rightarrow> error + package"
  satisfies :: "string \<Rightarrow> string \<Rightarrow> bool"
  path_join :: "string \<Rightarrow> string \<Rightarrow> string \<Rightarrow> string"
  path_resolve :: "string \<Rightarrow> string \<Rightarrow> string \<Rightarrow> string"

text \<open>
  Modelled from the spec: \<open>addParentToErrors\<close> (lib/install/add-parent-to-errors.js is
  not among the sources).  Errors passing through a tree position carry the chain of
  parent package names; a callback without an error is passed on unchanged.
\<close>

fun addParentToErrors :: "node \<Rightarrow> error \<Rightarrow> error" where
  "addParentToErrors t (Error m ps) = Error m (ps @ [name (package t)])"
| "addParentToErrors t e = e"

section \<open>requirementExists and earliestInstallable\<close>

definition nameMatch :: "heap \<Rightarrow> string \<Rightarrow> ref \<Rightarrow> bool" where
  "nameMatch h nm c = (case h c of None \<Rightarrow> False | Some n \<Rightarrow> name (package n) = nm)"

definition versionMatch :: "externals \<Rightarrow> heap \<Rightarrow> string \<Rightarrow> ref \<Rightarrow> bool" where
  "versionMatch E h ver c =
     (case h c of None \<Rightarrow> False | Some n \<Rightarrow> satisfies E (version (package n)) ver)"

text \<open>
  Both functions climb the parent links, which nothing forces to end: the result is
  \<open>None\<close> when the climb does not return.  \<open>Some (Inl e)\<close> is an exception thrown
  (\<open>tree.children.filter\<close> on a node without children), \<open>Some (Inr None)\<close> is the
  JavaScript \<open>null\<close>.
\<close>

partial_function (option) requirementExists ::
  "externals \<Rightarrow> heap \<Rightarrow> ref \<Rightarrow> string \<Rightarrow> string \<Rightarrow> (error + ref option) option" where
  "requirementExists E h tree nm ver =
     (case h tree of
        None \<Rightarrow> Some (Inl TypeError)
      | Some t \<Rightarrow>
          if nameMatch h nm tree
          then Some (Inr (if versionMatch E h ver tree then Some tree else None))
          else (case children t of
                  None \<Rightarrow> Some (Inl TypeError)
                | Some cs \<Rightarrow>
                    (let matches = filter (nameMatch h nm) cs in
                     if matches \<noteq> []
                     then (case filter (versionMatch E h ver) matches of
                             m # _ \<Rightarrow> Some (Inr (Some m))
                           | [] \<Rightarrow> Some (Inr None))
                     else (case parent t of
                             None \<Rightarrow> Some (Inr None)
                           | Some p \<Rightarrow> requirementExists E h p nm ver))))"

partial_function (option) earliestInstallable ::
  "heap \<Rightarrow> ref \<Rightarrow> string \<Rightarrow> (error + ref option) option" where
  "earliestInstallable h tree nm =
     (case h tree of
        None \<Rightarrow> Some (Inl TypeError)
      | Some t \<Rightarrow>
          if nameMatch h nm tree then Some (Inr (Some tree))
          else (case children t of
                  None \<Rightarrow> Some (Inl TypeError)
                | Some cs \<Rightarrow>
                    if filter (nameMatch h nm) cs \<noteq> [] then Some (Inr None)
                    else (case parent t of
                            None \<Rightarrow> Some (Inr (Some tree))
                          | Some p \<Rightarrow>
                              Option.bind (earliestInstallable h p nm)
                                (\<lambda>r. Some (case r of
                                             Inl e \<Rightarrow> Inl e
                                           | Inr None \<Rightarrow> Inr (Some tree)
                                           | Inr (Some a) \<Rightarrow> Inr (Some a))))))"

section \<open>Store operations\<close>

definition update_node :: "ref \<Rightarrow> (node \<Rightarrow> node) \<Rightarrow> state \<Rightarrow> state" where
  "update_node r f st =
     (case heap st r of
        None \<Rightarrow> st
      | Some n \<Rightarrow> st\<lparr>heap := (heap st)(r \<mapsto> f n)\<rparr>)"

definition alloc :: "node \<Rightarrow> state \<Rightarrow> state" where
  "alloc n st = st\<lparr>heap := (heap st)(nextref st \<mapsto> n), nextref := Suc (nextref st)\<rparr>"

definition push_child :: "ref \<Rightarrow> node \<Rightarrow> node" where
  "push_child c n = n\<lparr>children := map_option (\<lambda>cs. cs @ [c]) (children n)\<rparr>"

definition first_error :: "error option \<Rightarrow> error option \<Rightarrow> error option" where
  "first_error a b = (case a of Some e \<Rightarrow> Some e | None \<Rightarrow> b)"

section \<open>asyncMap\<close>

text \<open>
  \<open>asyncMap(list, worker, cb_)\<close> (package slide) keeps three variables: the number \<open>a\<close>
  of calls of the worker's callback it still waits for, the first error \<open>errState\<close>
  reported, and the second arguments reported.  It calls \<open>cb_\<close> at the call of the
  worker's callback that brings \<open>a\<close> to zero, with \<open>errState\<close> and, if any second
  argument was reported, their concatenation; on an empty list it calls \<open>cb_(null, [])\<close>
  at once.  A worker that calls its callback twice brings \<open>a\<close> to zero early, and one
  that never calls it keeps \<open>cb_\<close> from being called: nothing assumes here that a
  callback is called once.

  A call of a callback is recorded by its error argument and by whether it has a second
  argument (in this module always an empty array).  The field \<open>calls\<close> holds the calls
  of \<open>cb_\<close> made so far, by \<open>asyncMap\<close> or, ahead of it, by a worker that calls \<open>cb_\<close>
  itself.
\<close>

type_synonym cb_call = "error option \<times> bool"

record asyncMap =
  count :: int
  errState :: "error option"
  data :: bool
  calls :: "cb_call list"

definition asyncMap_start :: "nat \<Rightarrow> asyncMap" where
  "asyncMap_start l = \<lparr> count = int l, errState = None, data = False, calls = [] \<rparr>"

text \<open>The callback \<open>cb\<close> that \<open>asyncMap\<close> hands to its workers.\<close>

definition amcb :: "cb_call \<Rightarrow> asyncMap \<Rightarrow> asyncMap" where
  "amcb c am =
     (let es = first_error (errState am) (fst c);
          d = (data am \<or> snd c);
          a = count am - 1
      in \<lparr> count = a, errState = es, data = d,
           calls = (if a = 0 then calls am @ [(es, d)] else calls am) \<rparr>)"

definition amcb_all :: "cb_call list \<Rightarrow> asyncMap \<Rightarrow> asyncMap" where
  "amcb_all cs am = fold amcb cs am"

section \<open>inflateShrinkwrap\<close>

text \<open>
  The fetcher is modelled as answering at once, so the entries are worked through in
  list order, each one with everything it starts, before the next.

  A result \<open>Inl e\<close> is an exception thrown.  \<open>Inr (st, cs)\<close> is the store when every
  entry has been worked through and the calls of the callback \<open>cb\<close> in the order they
  are made.  When the fetcher fails for an entry the source calls \<open>cb(er)\<close> itself, not
  the worker's callback, once for every such entry; the call that \<open>asyncMap\<close> makes
  when its count reaches zero comes in addition, or never.
\<close>

fun inflateShrinkwrap ::
      "externals \<Rightarrow> ref \<Rightarrow> swdeps \<Rightarrow> state \<Rightarrow> error + state \<times> cb_call list"
  and inflateEntries ::
      "externals \<Rightarrow> ref \<Rightarrow> swdeps \<Rightarrow> asyncMap \<Rightarrow> state \<Rightarrow> error + state \<times> asyncMap"
where
  "inflateShrinkwrap E tree swdeps st =
     (case heap st tree of
        None \<Rightarrow> Inl TypeError
      | Some t \<Rightarrow>
          (let st0 = (if children t = None
                      then update_node tree (\<lambda>n. n\<lparr>children := Some []\<rparr>) st else st)
           in if swdeps = [] then Inr (st0, [(None, True)])
              else (case inflateEntries E tree swdeps (asyncMap_start (length swdeps)) st0 of
                      Inl e \<Rightarrow> Inl e
                    | Inr (st1, am) \<Rightarrow> Inr (st1, calls am))))"
| "inflateEntries E tree [] am st = Inr (st, am)"
| "inflateEntries E tree ((nm, Shrinkwrap ver subdeps) # rest) am st =
     (case heap st tree of
        None \<Rightarrow> Inl TypeError
      | Some t \<Rightarrow>
          (case fetchPackageMetadata E (nm @ ''@'' @ ver) (path t) of
             Inl er \<Rightarrow>
               inflateEntries E tree rest (am\<lparr> calls := calls am @ [(Some er, False)] \<rparr>) st
           | Inr pkg \<Rightarrow>
               (case children t of
                  None \<Rightarrow> Inl TypeError
                | Some cs \<Rightarrow>
                    (let child = nextref st;
                         st1 = alloc
                           \<lparr> package = pkg, children = Some [], parent = None,
                             requiredby = Some [tree], loaded = True,
                             path = path_join E (path t) ''node_modules'' (name pkg),
                             realpath = path_resolve E (realpath t) ''node_modules'' (name pkg) \<rparr>
                           st;
                         st2 = update_node tree (push_child child) st1
                     in case subdeps of
                          None \<Rightarrow> inflateEntries E tree rest (amcb (None, False) am) st2
                        | Some deps \<Rightarrow>
                            (case inflateShrinkwrap E child deps st2 of
                               Inl e \<Rightarrow> Inl e
                             | Inr (st3, cs) \<Rightarrow>
                                 inflateEntries E tree rest (amcb_all cs am) st3)))))"

section \<open>addChild\<close>

text \<open>
  What a callback of \<open>addChild\<close> receives as its \<open>child\<close> argument: nothing, a node,
  or the empty array that \<open>asyncMap\<close> hands over after inflating a shrinkwrap.
\<close>

datatype child_arg = Undefined | Node ref | EmptyArray

text \<open>Lines 102 to 116: the \<open>requested\<close> descriptor of an existing node.\<close>

definition mergeRequested :: "externals \<Rightarrow> requested \<Rightarrow> node \<Rightarrow> node" where
  "mergeRequested E rq c =
     (let r0 = (case requested (package c) of
                  Some r \<Rightarrow> r
                | None \<Rightarrow>
                    if satisfies E (version (package c)) (spec rq) then rq
                    else \<lparr> spec = version (package c), rtype = ''version'' \<rparr>);
          r1 = (if spec r0 \<noteq> spec rq
                then r0\<lparr> spec := spec r0 @ '' '' @ spec rq, rtype := ''range'' \<rparr>
                else r0)
      in c\<lparr> package := (package c)\<lparr> requested := Some r1 \<rparr> \<rparr>)"

text \<open>Lines 117 to 120: the requiring node is noted once.\<close>

definition noteRequiredby :: "ref \<Rightarrow> node \<Rightarrow> node" where
  "noteRequiredby tree c =
     (let rb = (case requiredby c of None \<Rightarrow> [] | Some rb \<Rightarrow> rb)
      in c\<lparr> requiredby :=
              Some (if length (filter (\<lambda>A. A = tree) rb) = 0 then rb @ [tree] else rb) \<rparr>)"

text \<open>
  The callback of \<open>addChild\<close> behind \<open>addParentToErrors\<close>, as \<open>inflateShrinkwrap\<close> calls
  it: an error gets the parent's name, a call without error has no \<open>child\<close> or the
  empty array.
\<close>

definition inflated_call :: "node \<Rightarrow> cb_call \<Rightarrow> error + child_arg" where
  "inflated_call t c =
     (case fst c of
        Some e \<Rightarrow> Inl (addParentToErrors t e)
      | None \<Rightarrow> Inr (if snd c then EmptyArray else Undefined))"

definition inflated :: "node \<Rightarrow> error + state \<times> cb_call list
                          \<Rightarrow> error + state \<times> (error + child_arg) list" where
  "inflated t r =
     (case r of
        Inl e \<Rightarrow> Inl e
      | Inr (st, cs) \<Rightarrow> Inr (st, map (inflated_call t) cs))"

text \<open>Lines 101 to 133: the requirement is already met by \<open>child\<close>.\<close>

definition addChild_existing ::
  "externals \<Rightarrow> package \<Rightarrow> requested \<Rightarrow> ref \<Rightarrow> node \<Rightarrow> ref \<Rightarrow> state
     \<Rightarrow> error + state \<times> (error + child_arg) list" where
  "addChild_existing E pkg rq tree t child st =
     (case heap st child of
        None \<Rightarrow> Inl TypeError
      | Some c \<Rightarrow>
          (let st1 = update_node child (\<lambda>n. noteRequiredby tree (mergeRequested E rq n)) st
           in if loaded c then Inr (st1, [Inr Undefined])
              else (let st2 = update_node child (\<lambda>n. n\<lparr> loaded := True \<rparr>) st1
                    in case shrinkwrap pkg of
                         Some (Some deps) \<Rightarrow> inflated t (inflateShrinkwrap E child deps st2)
                       | _ \<Rightarrow> Inr (st2, [Inr (Node child)]))))"

text \<open>Lines 135 to 154: a new node, under the parent \<open>earliestInstallable\<close> gave or
  under \<open>tree\<close>.\<close>

definition addChild_new ::
  "externals \<Rightarrow> package \<Rightarrow> ref \<Rightarrow> node \<Rightarrow> ref option \<Rightarrow> state
     \<Rightarrow> error + state \<times> (error + child_arg) list" where
  "addChild_new E pkg tree t earliest st =
     (let p = (case earliest of Some a \<Rightarrow> a | None \<Rightarrow> tree)
      in case heap st p of
           None \<Rightarrow> Inl TypeError
         | Some pn \<Rightarrow>
             (case children pn of
                None \<Rightarrow> Inl TypeError
              | Some cs \<Rightarrow>
                  (let child = nextref st;
                       st1 = alloc
                         \<lparr> package = pkg, children = Some [], parent = Some p,
                           requiredby = Some [tree], loaded = True,
                           path = path_join E (path pn) ''node_modules'' (name pkg),
                           realpath = path_resolve E (realpath pn) ''node_modules'' (name pkg) \<rparr>
                         st;
                       st2 = update_node p (push_child child) st1
                   in case shrinkwrap pkg of
                        Some (Some deps) \<Rightarrow> inflated t (inflateShrinkwrap E child deps st2)
                      | _ \<Rightarrow> Inr (st2, [Inr (Node child)]))))"

text \<open>
  \<open>addChild\<close>: \<open>None\<close> when a climb does not return, \<open>Some (Inl e)\<close> for an exception
  thrown, \<open>Some (Inr (st, cs))\<close> for the store afterwards and the calls of the callback
  in order, each with what it receives: an error (\<open>Inl\<close>) or the \<open>child\<close> argument.
  There is one call, except through \<open>inflateShrinkwrap\<close>.
\<close>

definition addChild ::
  "externals \<Rightarrow> string \<Rightarrow> ref \<Rightarrow> state
     \<Rightarrow> (error + state \<times> (error + child_arg) list) option" where
  "addChild E spc tree st =
     (case heap st tree of
        None \<Rightarrow> Some (Inl TypeError)
      | Some t \<Rightarrow>
          (case fetchPackageMetadata E spc (path t) of
             Inl er \<Rightarrow> Some (Inr (st, [Inl (addParentToErrors t er)]))
           | Inr pkg \<Rightarrow>
               (case requested pkg of
                  None \<Rightarrow> Some (Inl TypeError)
                | Some rq \<Rightarrow>
                    (case requirementExists E (heap st) tree (name pkg)
                            (if spec rq \<noteq> [] then spec rq else version pkg) of
                       None \<Rightarrow> None
                     | Some (Inl e) \<Rightarrow> Some (Inl e)
                     | Some (Inr (Some child)) \<Rightarrow>
                         Some (addChild_existing E pkg rq tree t child st)
                     | Some (Inr None) \<Rightarrow>
                         (case earliestInstallable (heap st) tree (name pkg) of
                            None \<Rightarrow> None
                          | Some (Inl e) \<Rightarrow> Some (Inl e)
                          | Some (Inr earliest) \<Rightarrow>
                              Some (addChild_new E pkg tree t earliest st))))))"

section \<open>The dependency loaders\<close>

text \<open>
  \<open>loadDeps\<close> recurses through the callback of \<open>addChild\<close> for as long as resolved
  packages declare dependencies, which a registry with a cycle of conflicting versions
  keeps up for ever.  The loaders therefore take fuel, the depth of recursion allowed,
  and return \<open>None\<close> when it runs out or when a climb inside \<open>addChild\<close> does not
  return.  \<open>Some (Inl e)\<close> is an exception thrown, \<open>Some (Inr (st, cs))\<close> the store when
  every worker has returned and the calls of the callback \<open>cb\<close> in order, each by the
  error it receives (the second arguments of these callbacks are read by nobody in the
  module and are left out).  As in \<open>inflateShrinkwrap\<close> the fetcher answers at once and
  the workers run one after the other.
\<close>

definition errmsg :: "error \<Rightarrow> string" where
  "errmsg e = (case e of
                 Error m ps \<Rightarrow> m
               | TypeError \<Rightarrow> ''TypeError''
               | ReferenceError x \<Rightarrow> x @ '' is not defined'')"

text \<open>\<open>warnOnError\<close>: the warning carries the message of the error, and the callback
  behind it receives no error.\<close>

definition warnOnError :: "error option \<Rightarrow> state \<Rightarrow> state \<times> error option" where
  "warnOnError er st =
     (case er of
        Some e \<Rightarrow> (st\<lparr> warnings := warnings st @ [errmsg e] \<rparr>, None)
      | None \<Rightarrow> (st, None))"

text \<open>
  \<open>obj && obj[dep]\<close> on a dictionary of version ranges read from a manifest: an own
  entry counts when its range is not the empty string, and the properties that every
  object inherits from \<open>Object.prototype\<close> count as well.
\<close>

definition object_prototype :: "string list" where
  "object_prototype =
     [''constructor'', ''toString'', ''toLocaleString'', ''valueOf'', ''hasOwnProperty'',
      ''isPrototypeOf'', ''propertyIsEnumerable'', ''__proto__'', ''__defineGetter__'',
      ''__defineSetter__'', ''__lookupGetter__'', ''__lookupSetter__'']"

definition truthy_entry :: "(string \<times> string) list option \<Rightarrow> string \<Rightarrow> bool" where
  "truthy_entry obj dep =
     (case obj of
        None \<Rightarrow> False
      | Some kvs \<Rightarrow>
          (case map_of kvs dep of
             None \<Rightarrow> dep \<in> set object_prototype
           | Some v \<Rightarrow> v \<noteq> []))"

text \<open>
  One call of the callback that the worker of \<open>loadDeps\<close> gives to \<open>addChild\<close> and to
  the recursive \<open>loadDeps\<close>: \<open>amcb\<close>, behind \<open>warnOnError\<close> when the dependency is
  optional.
\<close>

definition deliver :: "bool \<Rightarrow> error option \<Rightarrow> state \<times> asyncMap \<Rightarrow> state \<times> asyncMap" where
  "deliver optional er sa =
     (if optional
      then (case warnOnError er (fst sa) of (st, er') \<Rightarrow> (st, amcb (er', False) (snd sa)))
      else (fst sa, amcb (er, False) (snd sa)))"

text \<open>
  \<open>loadDeps\<close>, its worker \<open>loadDep\<close> (lines 29 to 36), the callback \<open>asCbWithCb\<close> run on
  every call that \<open>addChild\<close> makes (\<open>asCbWithCb_calls\<close>), and the loop of \<open>asyncMap\<close>
  over the dependencies (\<open>loadDepsEach\<close>).
\<close>

function (sequential) loadDeps ::
      "externals \<Rightarrow> nat \<Rightarrow> child_arg \<Rightarrow> state \<Rightarrow> (error + state \<times> error option list) option"
  and asCbWithCb_calls ::
      "externals \<Rightarrow> nat \<Rightarrow> bool \<Rightarrow> (error + child_arg) list \<Rightarrow> asyncMap \<Rightarrow> state
         \<Rightarrow> (error + state \<times> asyncMap) option"
  and loadDep ::
      "externals \<Rightarrow> nat \<Rightarrow> ref \<Rightarrow> package \<Rightarrow> string \<times> string \<Rightarrow> asyncMap \<Rightarrow> state
         \<Rightarrow> (error + state \<times> asyncMap) option"
  and loadDepsEach ::
      "externals \<Rightarrow> nat \<Rightarrow> ref \<Rightarrow> package \<Rightarrow> (string \<times> string) list \<Rightarrow> asyncMap \<Rightarrow> state
         \<Rightarrow> (error + state \<times> asyncMap) option"
where
  "loadDeps E 0 tree st = None"
| "loadDeps E (Suc n) Undefined st = Some (Inr (st, [None]))"
| "loadDeps E (Suc n) EmptyArray st = Some (Inl TypeError)"
| "loadDeps E (Suc n) (Node tree) st =
     (case heap st tree of
        None \<Rightarrow> Some (Inl TypeError)
      | Some t \<Rightarrow>
          (case dependencies (package t) of
             None \<Rightarrow> Some (Inr (st, [None]))
           | Some deps \<Rightarrow>
               if deps = [] then Some (Inr (st, [None]))
               else (case loadDepsEach E n tree (package t) deps
                            (asyncMap_start (length deps)) st of
                       None \<Rightarrow> None
                     | Some (Inl e) \<Rightarrow> Some (Inl e)
                     | Some (Inr (st1, am)) \<Rightarrow> Some (Inr (st1, map fst (calls am))))))"
| "asCbWithCb_calls E n optional [] am st = Some (Inr (st, am))"
| "asCbWithCb_calls E n optional (c # cs) am st =
     (case c of
        Inl er \<Rightarrow>
          (case deliver optional (Some er) (st, am) of
             (st1, am1) \<Rightarrow> asCbWithCb_calls E n optional cs am1 st1)
      | Inr child \<Rightarrow>
          (case loadDeps E n child st of
             None \<Rightarrow> None
           | Some (Inl e) \<Rightarrow> Some (Inl e)
           | Some (Inr (st1, ers)) \<Rightarrow>
               (case fold (deliver optional) ers (st1, am) of
                  (st2, am2) \<Rightarrow> asCbWithCb_calls E n optional cs am2 st2)))"
| "loadDep E n tree pk (dep, ver) am st =
     (case addChild E (dep @ ''@'' @ ver) tree st of
        None \<Rightarrow> None
      | Some (Inl e) \<Rightarrow> Some (Inl e)
      | Some (Inr (st1, cs)) \<Rightarrow>
          asCbWithCb_calls E n (truthy_entry (optionalDependencies pk) dep) cs am st1)"
| "loadDepsEach E n tree pk [] am st = Some (Inr (st, am))"
| "loadDepsEach E n tree pk (d # rest) am st =
     (case loadDep E n tree pk d am st of
        None \<Rightarrow> None
      | Some (Inl e) \<Rightarrow> Some (Inl e)
      | Some (Inr (st1, am1)) \<Rightarrow> loadDepsEach E n tree pk rest am1 st1)"
  by pat_completeness auto

termination
  by (relation "measures
        [(\<lambda>x. case x of
              Inl (Inl (E, n, c, st)) \<Rightarrow> n
            | Inl (Inr (E, n, opt, cs, am, st)) \<Rightarrow> n
            | Inr (Inl (E, n, tree, pk, d, am, st)) \<Rightarrow> n
            | Inr (Inr (E, n, tree, pk, ds, am, st)) \<Rightarrow> n),
         (\<lambda>x. case x of
              Inl (Inl (E, n, c, st)) \<Rightarrow> 0
            | Inl (Inr (E, n, opt, cs, am, st)) \<Rightarrow> 1
            | Inr (Inl (E, n, tree, pk, d, am, st)) \<Rightarrow> 2
            | Inr (Inr (E, n, tree, pk, ds, am, st)) \<Rightarrow> 3),
         (\<lambda>x. case x of
              Inl (Inl (E, n, c, st)) \<Rightarrow> 0
            | Inl (Inr (E, n, opt, cs, am, st)) \<Rightarrow> length cs
            | Inr (Inl (E, n, tree, pk, d, am, st)) \<Rightarrow> 0
            | Inr (Inr (E, n, tree, pk, ds, am, st)) \<Rightarrow> length ds)]")
     auto

text \<open>
  The worker of \<open>loadDevDeps\<close>, lines 43 to 54.  \<open>devCb_return\<close> is the callback it
  gives to the recursive \<open>loadDeps\<close> (lines 49 to 53), \<open>devCb_calls\<close> the callback it
  gives to \<open>addChild\<close> (lines 45 to 54) run on every call that \<open>addChild\<close> makes.
\<close>

definition set_parent :: "child_arg \<Rightarrow> ref option \<Rightarrow> state \<Rightarrow> state" where
  "set_parent child p st =
     (case child of
        Node c \<Rightarrow> update_node c (\<lambda>n. n\<lparr> parent := p \<rparr>) st
      | _ \<Rightarrow> st)"

definition devCb_return ::
  "child_arg \<Rightarrow> ref option \<Rightarrow> error option \<Rightarrow> state \<times> asyncMap \<Rightarrow> state \<times> asyncMap" where
  "devCb_return child realParent er sa =
     (case er of
        Some e \<Rightarrow> (fst sa, amcb (Some e, False) (snd sa))
      | None \<Rightarrow> (set_parent child realParent (fst sa), amcb (None, False) (snd sa)))"

fun devCb_calls ::
  "externals \<Rightarrow> nat \<Rightarrow> (error + child_arg) list \<Rightarrow> asyncMap \<Rightarrow> state
     \<Rightarrow> (error + state \<times> asyncMap) option" where
  "devCb_calls E n [] am st = Some (Inr (st, am))"
| "devCb_calls E n (Inl er # cs) am st = devCb_calls E n cs (amcb (Some er, False) am) st"
| "devCb_calls E n (Inr Undefined # cs) am st = Some (Inl TypeError)"
| "devCb_calls E n (Inr child # cs) am st =
     (case (case child of
              Node c \<Rightarrow> (case heap st c of None \<Rightarrow> Inl TypeError | Some cn \<Rightarrow> Inr (parent cn))
            | _ \<Rightarrow> Inr None) of
        Inl e \<Rightarrow> Some (Inl e)
      | Inr realParent \<Rightarrow>
          (case loadDeps E n child (set_parent child None st) of
             None \<Rightarrow> None
           | Some (Inl e) \<Rightarrow> Some (Inl e)
           | Some (Inr (st1, ers)) \<Rightarrow>
               (case fold (devCb_return child realParent) ers (st1, am) of
                  (st2, am2) \<Rightarrow> devCb_calls E n cs am2 st2)))"

definition loadDevDep ::
  "externals \<Rightarrow> nat \<Rightarrow> ref \<Rightarrow> package \<Rightarrow> string \<times> string \<Rightarrow> asyncMap \<Rightarrow> state
     \<Rightarrow> (error + state \<times> asyncMap) option" where
  "loadDevDep E n tree pk d am st =
     (if truthy_entry (dependencies pk) (fst d) then Some (Inr (st, amcb (None, False) am))
      else (case addChild E (fst d @ ''@'' @ snd d) tree st of
              None \<Rightarrow> None
            | Some (Inl e) \<Rightarrow> Some (Inl e)
            | Some (Inr (st1, cs)) \<Rightarrow> devCb_calls E n cs am st1))"

fun loadDevDepsEach ::
  "externals \<Rightarrow> nat \<Rightarrow> ref \<Rightarrow> package \<Rightarrow> (string \<times> string) list \<Rightarrow> asyncMap \<Rightarrow> state
     \<Rightarrow> (error + state \<times> asyncMap) option" where
  "loadDevDepsEach E n tree pk [] am st = Some (Inr (st, am))"
| "loadDevDepsEach E n tree pk (d # rest) am st =
     (case loadDevDep E n tree pk d am st of
        None \<Rightarrow> None
      | Some (Inl e) \<Rightarrow> Some (Inl e)
      | Some (Inr (st1, am1)) \<Rightarrow> loadDevDepsEach E n tree pk rest am1 st1)"

definition loadDevDeps ::
  "externals \<Rightarrow> nat \<Rightarrow> ref \<Rightarrow> state \<Rightarrow> (error + state \<times> error option list) option" where
  "loadDevDeps E n tree st =
     (case heap st tree of
        None \<Rightarrow> Some (Inl TypeError)
      | Some t \<Rightarrow>
          (case devDependencies (package t) of
             None \<Rightarrow> Some (Inr (st, [None]))
           | Some deps \<Rightarrow>
               if deps = [] then Some (Inr (st, [None]))
               else (case loadDevDepsEach E n tree (package t) deps
                            (asyncMap_start (length deps)) st of
                       None \<Rightarrow> None
                     | Some (Inl e) \<Rightarrow> Some (Inl e)
                     | Some (Inr (st1, am)) \<Rightarrow> Some (Inr (st1, map fst (calls am))))))"

section \<open>The driver (lib/install.js)\<close>

subsection \<open>unlockCB\<close>

text \<open>
  The identifiers that the body of the callback in \<open>unlockCB\<close> can refer to: its own
  parameters and variables, the declarations at the top level of install.js, and the
  globals of node that the file uses.  Reading any other identifier throws a
  \<open>ReferenceError\<close>.
\<close>

definition install_js_scope :: "string list" where
  "install_js_scope =
     [''install'', ''url'', ''path'', ''log'', ''readPackageTree'', ''chain'', ''archy'',
      ''mkdir'', ''rimraf'', ''fs'', ''npm'', ''fetchPackageMetadata'', ''locker'', ''lock'',
      ''unlock'', ''inflateShrinkwrap'', ''loadDeps'', ''loadDevDeps'', ''loadArgs'',
      ''diffTrees'', ''decomposeActions'', ''validateTree'', ''actions'', ''doSerial'',
      ''doParallel'', ''dup'', ''unlockCB'', ''beforeCb'', ''readLocalPackageData'',
      ''loadShrinkwrap'', ''thenInstall'', ''debugActions'', ''debugTracker'', ''debugTree'',
      ''prettify'', ''module'', ''require'', ''console'', ''JSON'', ''Math'', ''Object'']"

definition unlockCB_scope :: "string list" where
  "unlockCB_scope = [''path'', ''name'', ''cb'', ''er1'', ''args'', ''arguments'', ''er2'']
                      @ install_js_scope"

definition read_identifier :: "string list \<Rightarrow> string \<Rightarrow> error + string" where
  "read_identifier scope x = (if x \<in> set scope then Inr x else Inl (ReferenceError x))"

text \<open>
  \<open>unlockCB(path, name, cb)\<close> gives the callback that ends the driver.  Called with
  the outcome \<open>er1\<close> of the pipeline it unlocks; \<open>er2\<close> is what \<open>unlock\<close> reports.  The
  result is \<open>Inl e\<close> when the body throws, and otherwise the error that \<open>cb\<close> receives
  with the warnings logged.  In the branch where both errors are set the argument
  \<open>"unlock "+namej\<close> is evaluated first; the method \<open>log.warning\<close> then called is not
  one of npmlog's (the other module logs with \<open>log.warn\<close>).
\<close>

definition unlockCB :: "error option \<Rightarrow> error option \<Rightarrow> error + error option \<times> string list" where
  "unlockCB er1 er2 =
     (case er1 of
        Some e1 \<Rightarrow>
          (case er2 of
             Some e2 \<Rightarrow>
               (case read_identifier unlockCB_scope ''namej'' of
                  Inl e \<Rightarrow> Inl e
                | Inr v \<Rightarrow> Inl TypeError)
           | None \<Rightarrow> Inr (Some e1, []))
      | None \<Rightarrow>
          (case er2 of
             Some e2 \<Rightarrow> Inr (Some e2, [])
           | None \<Rightarrow> Inr (None, [])))"

subsection \<open>thenInstall\<close>

text \<open>The configuration flags the driver reads with \<open>npm.config.get\<close>.\<close>

record config =
  global :: bool
  dev :: bool
  production :: bool
  npat :: bool

text \<open>
  The array \<open>steps\<close> of \<open>thenInstall\<close>, element by element.  A falsy element (the left
  operand of a failed \<open>&&\<close>, or the hole a doubled comma leaves) is \<open>None\<close>; \<open>chain\<close>
  skips it.  \<open>Action h\<close> is the top-level lifecycle hook \<open>actions.h\<close> run on the root
  package.
\<close>

datatype step =
    Mkdir | LoadDeps | LoadArgs | LoadDevDeps | ValidateTree | DiffTrees
  | DecomposeActions | DebugActions
  | DoParallel string | DoSerial string
  | Rimraf | Unlock
  | Action string

definition guarded :: "bool \<Rightarrow> step \<Rightarrow> step option" where
  "guarded b s = (if b then Some s else None)"

definition steps :: "config \<Rightarrow> string list \<Rightarrow> step option list" where
  "steps cfg args =
     [ Some Mkdir
     , Some LoadDeps, None
     , guarded (length args \<noteq> 0) LoadArgs
     , guarded (dev cfg \<or> \<not> production cfg) LoadDevDeps
     , Some ValidateTree, None
     , Some DiffTrees
     , Some DecomposeActions, Some DebugActions
     , Some (DoParallel ''fetch'')
     , Some (DoParallel ''extract'')
     , Some (DoParallel ''preinstall'')
     , Some (DoParallel ''build'')
     , Some (DoParallel ''remove'')
     , Some (DoSerial ''finalize'')
     , Some (DoSerial ''install'')
     , Some (DoSerial ''postinstall'')
     , guarded (npat cfg) (DoParallel ''test'')
     , Some Rimraf
     , Some Unlock
     , guarded (\<not> length args \<noteq> 0) (Action ''preinstall'')
     , guarded (\<not> length args \<noteq> 0) (Action ''build'')
     , guarded (\<not> length args \<noteq> 0) (Action ''postinstall'')
     , guarded (\<not> length args \<noteq> 0 \<and> npat cfg) (Action ''test'')
     , guarded (\<not> production cfg) (Action ''prepublish'')
     ]"

text \<open>\<open>chain\<close> (package slide) runs the steps that are not falsy, in array order.\<close>

definition chain_steps :: "step option list \<Rightarrow> step list" where
  "chain_steps xs = List.map_filter (\<lambda>x. x) xs"



subsection \<open>Running the action plan\<close>

text \<open>
  Modelled from the spec: \<open>doSerial\<close> and \<open>doParallel\<close> (lib/install/actions.js is not
  among the sources) and the decomposed action list \<open>todo\<close> they work on.  An entry of
  \<open>todo\<close> is a phase name with the package it acts on, in the order the differ emitted
  them; a step for a phase runs the entries of \<open>todo\<close> of that phase.  A run is the list
  of its events, the start and the completion of each entry.  In a serial phase the
  entries execute one-completes-before-next-starts, in the order of \<open>todo\<close>.  In a
  parallel phase the entries are independent tasks in flight together: every
  interleaving of their events is a run (the bound on the number of tasks in flight is
  not modelled), and the step calls back when all of them have completed.  Each model
  gives the list of all runs in which every entry succeeds.
\<close>

datatype event = Started string nat | Completed string nat

fun event_phase :: "event \<Rightarrow> string" where
  "event_phase (Started ph a) = ph"
| "event_phase (Completed ph a) = ph"

definition entries :: "string \<Rightarrow> (string \<times> nat) list \<Rightarrow> nat list" where
  "entries ph todo = map snd (filter (\<lambda>a. fst a = ph) todo)"

definition run_entry :: "string \<Rightarrow> nat \<Rightarrow> event list" where
  "run_entry ph a = [Started ph a, Completed ph a]"

text \<open>Modelled from the spec: \<open>doSerial\<close>, the one run of a serial phase.\<close>

definition doSerial :: "string \<Rightarrow> (string \<times> nat) list \<Rightarrow> event list list" where
  "doSerial ph todo = [concat (map (run_entry ph) (entries ph todo))]"

text \<open>Modelled from the spec: \<open>doParallel\<close>, all interleavings of the entries of a phase.\<close>

fun interleave :: "'a list \<Rightarrow> 'a list \<Rightarrow> 'a list list" where
  "interleave [] ys = [ys]"
| "interleave xs [] = [xs]"
| "interleave (x # xs) (y # ys) =
     map ((#) x) (interleave xs (y # ys)) @ map ((#) y) (interleave (x # xs) ys)"

fun in_parallel :: "string \<Rightarrow> nat list \<Rightarrow> event list list" where
  "in_parallel ph [] = [[]]"
| "in_parallel ph (a # as) = concat (map (interleave (run_entry ph a)) (in_parallel ph as))"

definition doParallel :: "string \<Rightarrow> (string \<times> nat) list \<Rightarrow> event list list" where
  "doParallel ph todo = in_parallel ph (entries ph todo)"

text \<open>
  Modelled from the spec: \<open>chain\<close> (package slide) calls each step when the step before
  it has called back, so a run of the steps is a run of the first followed by a run of
  the rest.  The steps other than \<open>doParallel\<close> and \<open>doSerial\<close> run no entry of \<open>todo\<close>.
\<close>

fun step_traces :: "(string \<times> nat) list \<Rightarrow> step \<Rightarrow> event list list" where
  "step_traces todo (DoParallel ph) = doParallel ph todo"
| "step_traces todo (DoSerial ph) = doSerial ph todo"
| "step_traces todo s = [[]]"

fun chain_traces :: "(string \<times> nat) list \<Rightarrow> step list \<Rightarrow> event list list" where
  "chain_traces todo [] = [[]]"
| "chain_traces todo (s # ss) =
     concat (map (\<lambda>a. map (\<lambda>b. a @ b) (chain_traces todo ss)) (step_traces todo s))"

text \<open>Line 227: the runs of \<open>chain(steps, cb)\<close> on a decomposed action list.\<close>

definition thenInstall_traces :: "config \<Rightarrow> string list \<Rightarrow> (string \<times> nat) list \<Rightarrow> event list list" where
  "thenInstall_traces cfg args todo = chain_traces todo (chain_steps (steps cfg args))"

section \<open>Notions used in the statements\<close>

fun inflated_children ::
  "externals \<Rightarrow> heap \<Rightarrow> ref \<Rightarrow> ref \<Rightarrow> ref \<Rightarrow> string \<Rightarrow> swdeps \<Rightarrow> ref list \<Rightarrow> bool" where
  "inflated_children E h lo hi t tpath [] cs = (cs = [])"
| "inflated_children E h lo hi t tpath ((nm, Shrinkwrap ver sub) # rest) cs =
     (case fetchPackageMetadata E (nm @ ''@'' @ ver) tpath of
        Inl er \<Rightarrow> inflated_children E h lo hi t tpath rest cs
      | Inr pkg \<Rightarrow>
          (case cs of
             [] \<Rightarrow> False
           | c # cs' \<Rightarrow>
               lo \<le> c \<and> c < hi \<and>
               (case h c of
                  None \<Rightarrow> False
                | Some n \<Rightarrow>
                    package n = pkg \<and> loaded n \<and> requiredby n = Some [t] \<and>
                    path n = path_join E tpath ''node_modules'' (name pkg) \<and>
                    (case sub of
                       None \<Rightarrow> children n = Some []
                     | Some ds \<Rightarrow>
                         (case children n of
                            None \<Rightarrow> False
                          | Some k \<Rightarrow> inflated_children E h lo hi c (path n) ds k))) \<and>
               inflated_children E h lo hi t tpath rest cs'))"

definition inflate_post ::
  "externals \<Rightarrow> state \<Rightarrow> state \<Rightarrow> ref \<Rightarrow> node \<Rightarrow> ref list \<Rightarrow> swdeps \<Rightarrow> bool" where
  "inflate_post E st st' tree t cs ds \<longleftrightarrow>
     nextref st \<le> nextref st' \<and> warnings st' = warnings st \<and>
     (\<forall>x. x < nextref st \<and> x \<noteq> tree \<longrightarrow> heap st' x = heap st x) \<and>
     (\<forall>x. nextref st' \<le> x \<longrightarrow> heap st' x = heap st x) \<and>
     (\<exists>news. heap st' tree = Some (t\<lparr>children := Some (cs @ news)\<rparr>) \<and>
         inflated_children E (heap st') (nextref st) (nextref st') tree (path t) ds news)"

definition wf_state :: "state \<Rightarrow> bool" where
  "wf_state st \<longleftrightarrow> (\<forall>r. nextref st \<le> r \<longrightarrow> heap st r = None)"

definition resolves :: "externals \<Rightarrow> string \<Rightarrow> string \<times> shrinkwrap \<Rightarrow> bool" where
  "resolves E p d = (\<not> isl (fetchPackageMetadata E (fst d @ ''@'' @ sw_version (snd d)) p))"

fun is_chain :: "heap \<Rightarrow> ref list \<Rightarrow> bool" where
  "is_chain h [] = False"
| "is_chain h [t] =
     (case h t of None \<Rightarrow> False | Some n \<Rightarrow> children n \<noteq> None \<and> parent n = None)"
| "is_chain h (t # p # up) =
     (case h t of
        None \<Rightarrow> False
      | Some n \<Rightarrow> children n \<noteq> None \<and> parent n = Some p \<and> is_chain h (p # up))"

definition kids :: "heap \<Rightarrow> ref \<Rightarrow> ref list" where
  "kids h x = (case h x of
                 None \<Rightarrow> []
               | Some n \<Rightarrow> (case children n of None \<Rightarrow> [] | Some cs \<Rightarrow> cs))"

definition free_of :: "heap \<Rightarrow> string \<Rightarrow> ref \<Rightarrow> bool" where
  "free_of h nm x \<longleftrightarrow> \<not> nameMatch h nm x \<and> filter (nameMatch h nm) (kids h x) = []"

definition earliest_on_chain :: "heap \<Rightarrow> string \<Rightarrow> ref list \<Rightarrow> ref option" where
  "earliest_on_chain h nm ns =
     (case dropWhile (free_of h nm) ns of
        [] \<Rightarrow> Some (last ns)
      | b # _ \<Rightarrow>
          if nameMatch h nm b then Some b
          else (case takeWhile (free_of h nm) ns of
                  [] \<Rightarrow> None
                | x # xs \<Rightarrow> Some (last (x # xs))))"

definition chosen_parent :: "heap \<Rightarrow> string \<Rightarrow> ref list \<Rightarrow> ref" where
  "chosen_parent h nm ns =
     (case dropWhile (free_of h nm) ns of
        [] \<Rightarrow> last ns
      | b # _ \<Rightarrow>
          if nameMatch h nm b then b else last (hd ns # takeWhile (free_of h nm) ns))"

definition claimed_parent :: "heap \<Rightarrow> string \<Rightarrow> ref list \<Rightarrow> ref" where
  "claimed_parent h nm ns =
     (case dropWhile (free_of h nm) ns of
        [] \<Rightarrow> last ns
      | b # _ \<Rightarrow> if nameMatch h nm b then b else hd ns)"

declare earliestInstallable.simps [code]

declare requirementExists.simps [code]

definition parent_after ::
  "(error + state \<times> (error + child_arg) list) option \<Rightarrow> ref \<Rightarrow> ref option" where
  "parent_after res c =
     (case res of
        Some (Inr (st, r)) \<Rightarrow> (case heap st c of Some n \<Rightarrow> parent n | None \<Rightarrow> None)
      | _ \<Rightarrow> None)"

definition children_after ::
  "(error + state \<times> (error + child_arg) list) option \<Rightarrow> ref \<Rightarrow> ref list option" where
  "children_after res c =
     (case res of
        Some (Inr (st, r)) \<Rightarrow> (case heap st c of Some n \<Rightarrow> children n | None \<Rightarrow> None)
      | _ \<Rightarrow> None)"

definition callback_of ::
  "(error + state \<times> (error + child_arg) list) option \<Rightarrow> (error + child_arg) list option" where
  "callback_of res = (case res of Some (Inr (st, r)) \<Rightarrow> Some r | _ \<Rightarrow> None)"

definition satisfying_on_walk :: "externals \<Rightarrow> heap \<Rightarrow> string \<Rightarrow> string \<Rightarrow> ref list \<Rightarrow> bool" where
  "satisfying_on_walk E h nm ver ns =
     list_ex (\<lambda>x. (nameMatch h nm x \<and> versionMatch E h ver x) \<or>
                  list_ex (\<lambda>c. nameMatch h nm c \<and> versionMatch E h ver c) (kids h x)) ns"

definition node_after :: "(error + state \<times> error option list) option \<Rightarrow> ref \<Rightarrow> node option" where
  "node_after res c = (case res of Some (Inr (st, er)) \<Rightarrow> heap st c | _ \<Rightarrow> None)"

definition error_after :: "(error + state \<times> error option list) option \<Rightarrow> error option list option" where
  "error_after res = (case res of Some (Inr (st, er)) \<Rightarrow> Some er | _ \<Rightarrow> None)"


definition phases :: "string list" where
  "phases = [''fetch'', ''extract'', ''preinstall'', ''build'', ''remove'', ''finalize'',
             ''install'', ''postinstall'', ''test'']"

definition phase_rank :: "string \<Rightarrow> nat" where
  "phase_rank p = length (takeWhile (\<lambda>q. q \<noteq> p) phases)"

fun step_phase :: "step \<Rightarrow> string option" where
  "step_phase (DoParallel ph) = Some ph"
| "step_phase (DoSerial ph) = Some ph"
| "step_phase s = None"

definition phase_names :: "step list \<Rightarrow> string list" where
  "phase_names ss = List.map_filter step_phase ss"

text \<open>
  The walk of \<open>requirementExists\<close> over a chain of parents \<open>ns\<close>: it passes the nodes
  that are not named \<open>nm\<close> and have no child named \<open>nm\<close>, and stops at the first node
  \<open>b\<close> that is not such.  If \<open>b\<close> is named \<open>nm\<close>, it is the result when its version
  satisfies \<open>ver\<close>; if it is not, the result is its first child named \<open>nm\<close> whose
  version satisfies \<open>ver\<close>.
\<close>

definition met_on_chain ::
  "externals \<Rightarrow> heap \<Rightarrow> string \<Rightarrow> string \<Rightarrow> ref list \<Rightarrow> ref option" where
  "met_on_chain E h nm ver ns =
     (case dropWhile (free_of h nm) ns of
        [] \<Rightarrow> None
      | b # _ \<Rightarrow>
          if nameMatch h nm b then (if versionMatch E h ver b then Some b else None)
          else (case filter (versionMatch E h ver) (filter (nameMatch h nm) (kids h b)) of
                  [] \<Rightarrow> None
                | m # _ \<Rightarrow> Some m))"

text \<open>The state of an \<open>asyncMap\<close> after \<open>k\<close> calls of its callback without error.\<close>

definition caught :: "nat \<Rightarrow> asyncMap \<Rightarrow> asyncMap" where
  "caught k am = (amcb (None, False) ^^ k) am"

text \<open>The package of a node is a record that the fetcher gave, up to its \<open>requested\<close>
  descriptor, which \<open>addChild\<close> merges.\<close>

definition fetched :: "externals \<Rightarrow> node \<Rightarrow> bool" where
  "fetched E n \<longleftrightarrow>
     (\<exists>spc p pkg rq. fetchPackageMetadata E spc p = Inr pkg \<and>
                     package n = pkg\<lparr> requested := rq \<rparr>)"

text \<open>
  What the tree builders do to a store: references are only allocated, at and above
  \<open>nextref\<close>; a node that exists keeps its package up to \<open>requested\<close>, its path and
  its parent, and its children are extended by nodes allocated since; every node
  allocated since carries a fetched record.
\<close>

definition grows :: "externals \<Rightarrow> state \<Rightarrow> state \<Rightarrow> bool" where
  "grows E st st' \<longleftrightarrow>
     nextref st \<le> nextref st' \<and>
     (\<forall>x. nextref st' \<le> x \<longrightarrow> heap st' x = None) \<and>
     (\<forall>x. x < nextref st \<and> heap st x = None \<longrightarrow> heap st' x = None) \<and>
     (\<forall>x n. heap st x = Some n \<longrightarrow>
        (\<exists>n'. heap st' x = Some n' \<and>
              (\<exists>rq. package n' = (package n)\<lparr> requested := rq \<rparr>) \<and>
              path n' = path n \<and> parent n' = parent n \<and>
              (children n \<noteq> None \<longrightarrow> children n' \<noteq> None) \<and>
              (\<exists>news. kids (heap st') x = kids (heap st) x @ news \<and>
                      (\<forall>c \<in> set news. nextref st \<le> c \<and> heap st' c \<noteq> None)))) \<and>
     (\<forall>x n'. nextref st \<le> x \<and> heap st' x = Some n' \<longrightarrow> fetched E n')"


section \<open>Concrete inputs\<close>

definition pkW :: "string \<Rightarrow> string \<Rightarrow> package" where
  "pkW n v = \<lparr> name = n, version = v, requested = Some \<lparr> spec = v, rtype = ''version'' \<rparr>,
      shrinkwrap = None, dependencies = None, optionalDependencies = None,
      devDependencies = None \<rparr>"

definition envW :: externals where
  "envW = \<lparr> fetchPackageMetadata = (\<lambda>s p.
               if s = ''a@1'' then Inr (pkW ''a'' ''1'')
               else if s = ''b@1'' then Inr (pkW ''b'' ''1'')
               else if s = ''b@2'' then Inr (pkW ''b'' ''2'')
               else if s = ''s@1''
                 then Inr ((pkW ''s'' ''1'')
                             \<lparr> shrinkwrap := Some (Some [(''b'', Shrinkwrap ''1'' None)]) \<rparr>)
               else if s = ''x@1''
                 then Inr ((pkW ''x'' ''1'')
                             \<lparr> shrinkwrap := Some (Some [(''zz'', Shrinkwrap ''9'' None),
                                                        (''yy'', Shrinkwrap ''9'' None)]) \<rparr>)
               else if s = ''opt@1''
                 then Inr ((pkW ''opt'' ''1'')\<lparr> dependencies := Some [(''bad'', ''1'')] \<rparr>)
               else Inl (Error ''404'' [])),
             satisfies = (\<lambda>v r. v = r),
             path_join = (\<lambda>a b c. a @ ''/'' @ b @ ''/'' @ c),
             path_resolve = (\<lambda>a b c. a @ ''/'' @ b @ ''/'' @ c) \<rparr>"

definition rootW :: node where
  "rootW = \<lparr> package = pkW ''root'' ''1'', children = Some [1], parent = None,
             requiredby = None, loaded = False, path = ''/r'', realpath = ''/r'' \<rparr>"

definition bW :: node where
  "bW = \<lparr> package = pkW ''b'' ''1'', children = Some [], parent = Some 0,
           requiredby = None, loaded = False, path = ''/r/node_modules/b'',
           realpath = ''/r/node_modules/b'' \<rparr>"

definition stW :: state where
  "stW = \<lparr> heap = [0 \<mapsto> rootW, 1 \<mapsto> bW], nextref = 2, warnings = [] \<rparr>"

definition swW :: swdeps where
  "swW = [(''a'', Shrinkwrap ''1'' (Some [(''b'', Shrinkwrap ''1'' None)])),
          (''zz'', Shrinkwrap ''9'' None)]"

definition nodeW :: "string \<Rightarrow> string \<Rightarrow> ref list \<Rightarrow> ref option \<Rightarrow> bool \<Rightarrow> node" where
  "nodeW n v cs par ld =
     \<lparr> package = \<lparr> name = n, version = v, requested = None, shrinkwrap = None,
                    dependencies = None, optionalDependencies = None,
                    devDependencies = None \<rparr>,
       children = Some cs, parent = par, requiredby = None, loaded = ld,
       path = ''/'' @ n, realpath = ''/'' @ n \<rparr>"

definition st_hoist :: state where
  "st_hoist = \<lparr> heap = [0 \<mapsto> nodeW ''root'' ''1'' [1, 2] None False,
                         1 \<mapsto> nodeW ''b'' ''1'' [] (Some 0) False,
                         2 \<mapsto> nodeW ''p'' ''1'' [3] (Some 0) False,
                         3 \<mapsto> nodeW ''t'' ''1'' [] (Some 2) False],
                nextref = 4, warnings = [] \<rparr>"

definition st_climb :: state where
  "st_climb = \<lparr> heap = [0 \<mapsto> nodeW ''root'' ''1'' [1, 2] None False,
                         1 \<mapsto> nodeW ''b'' ''2'' [] (Some 0) False,
                         2 \<mapsto> nodeW ''p'' ''1'' [3] (Some 0) False,
                         3 \<mapsto> nodeW ''t'' ''1'' [] (Some 2) False],
                nextref = 4, warnings = [] \<rparr>"

definition st_conflict :: state where
  "st_conflict = \<lparr> heap = [0 \<mapsto> nodeW ''root'' ''1'' [1] None False,
                            1 \<mapsto> nodeW ''b'' ''1'' [2, 3] (Some 0) True,
                            2 \<mapsto> nodeW ''b'' ''2'' [] (Some 1) True,
                            3 \<mapsto> nodeW ''t'' ''1'' [] (Some 1) True],
                   nextref = 4, warnings = [] \<rparr>"

definition st_loaded :: state where
  "st_loaded = \<lparr> heap = [0 \<mapsto> nodeW ''root'' ''1'' [1] None False,
                          1 \<mapsto> nodeW ''b'' ''2'' [] (Some 0) True],
                 nextref = 2, warnings = [] \<rparr>"

definition st_sw :: state where
  "st_sw = \<lparr> heap = [0 \<mapsto> nodeW ''root'' ''1'' [1] None False,
                      1 \<mapsto> nodeW ''s'' ''1'' [] (Some 0) False],
             nextref = 2, warnings = [] \<rparr>"

definition st_tagged :: state where
  "st_tagged =
     \<lparr> heap = [0 \<mapsto> nodeW ''root'' ''1'' [1] None False,
               1 \<mapsto> (nodeW ''b'' ''2'' [] (Some 0) True)
                      \<lparr> package := (pkW ''b'' ''2'')
                           \<lparr> requested := Some \<lparr> spec = ''latest'', rtype = ''tag'' \<rparr> \<rparr> \<rparr>],
       nextref = 2, warnings = [] \<rparr>"

definition st_dev :: state where
  "st_dev =
     \<lparr> heap = [0 \<mapsto> (nodeW ''root'' ''1'' [] None False)
                      \<lparr> package := (pkW ''root'' ''1'')
                           \<lparr> devDependencies := Some [(''opt'', ''1''), (''a'', ''1'')] \<rparr> \<rparr>],
       nextref = 1, warnings = [] \<rparr>"





definition ex_cfg :: config where
  "ex_cfg = \<lparr> global = False, dev = False, production = False, npat = True \<rparr>"

definition ex_todo :: "(string \<times> nat) list" where
  "ex_todo = [(''fetch'', 1), (''finalize'', 1), (''fetch'', 2), (''finalize'', 2), (''test'', 1)]"

definition ex_trace :: "event list" where
  "ex_trace =
     [Started ''fetch'' 2, Started ''fetch'' 1, Completed ''fetch'' 1, Completed ''fetch'' 2,
      Started ''finalize'' 1, Completed ''finalize'' 1,
      Started ''finalize'' 2, Completed ''finalize'' 2,
      Started ''test'' 1, Completed ''test'' 1]"

section \<open>Properties of the tree builders\<close>

lemma heap_alloc [simp]:
  "heap (alloc n st) x = (if x = nextref st then Some n else heap st x)"
  by (simp add: alloc_def)

lemma nextref_alloc [simp]: "nextref (alloc n st) = Suc (nextref st)"
  by (simp add: alloc_def)

lemma warnings_alloc [simp]: "warnings (alloc n st) = warnings st"
  by (simp add: alloc_def)

lemma heap_update_node [simp]:
  "heap (update_node r f st) x = (if x = r then map_option f (heap st r) else heap st x)"
  by (simp add: update_node_def split: option.splits)

lemma nextref_update_node [simp]: "nextref (update_node r f st) = nextref st"
  by (simp add: update_node_def split: option.splits)

lemma warnings_update_node [simp]: "warnings (update_node r f st) = warnings st"
  by (simp add: update_node_def split: option.splits)

lemma inflated_children_cong:
  "inflated_children E h lo hi t p ds cs \<Longrightarrow> (\<And>x. lo \<le> x \<Longrightarrow> x < hi \<Longrightarrow> h' x = h x)
     \<Longrightarrow> inflated_children E h' lo hi t p ds cs"
proof (induction E h lo hi t p ds cs rule: inflated_children.induct)
  case (1 E h lo hi t tpath cs)
  then show ?case by simp
next
  case (2 E h lo hi t tpath nm ver sub rest cs)
  show ?case
  proof (cases "fetchPackageMetadata E (nm @ ''@'' @ ver) tpath")
    case (Inl er)
    with 2 show ?thesis by simp
  next
    case (Inr pkg)
    with "2.prems" obtain c cs' n where cs: "cs = c # cs'" and c: "lo \<le> c" "c < hi"
      and n: "h c = Some n"
      by (auto split: list.splits option.splits)
    from "2.prems" Inr cs n have rest: "inflated_children E h lo hi t tpath rest cs'"
      and fields: "package n = pkg" "loaded n" "requiredby n = Some [t]"
         "path n = path_join E tpath ''node_modules'' (name pkg)"
      and sub: "(case sub of None \<Rightarrow> children n = Some []
                 | Some ds \<Rightarrow> (case children n of None \<Rightarrow> False
                     | Some k \<Rightarrow> inflated_children E h lo hi c (path n) ds k))"
      by auto
    have n': "h' c = Some n" using "2.prems"(2)[OF c] n by simp
    have rest': "inflated_children E h' lo hi t tpath rest cs'"
      using "2.IH"(3)[OF Inr cs rest] "2.prems"(2) by blast
    have sub': "(case sub of None \<Rightarrow> children n = Some []
                 | Some ds \<Rightarrow> (case children n of None \<Rightarrow> False
                     | Some k \<Rightarrow> inflated_children E h' lo hi c (path n) ds k))"
    proof (cases sub)
      case None
      with sub show ?thesis by simp
    next
      case (Some ds)
      with sub obtain k where k: "children n = Some k"
        and ik: "inflated_children E h lo hi c (path n) ds k"
        by (auto split: option.splits)
      have "inflated_children E h' lo hi c (path n) ds k"
        using "2.IH"(2)[OF Inr cs n Some k ik] "2.prems"(2) by blast
      with Some k show ?thesis by simp
    qed
    from Inr cs c n' fields sub' rest' show ?thesis by simp
  qed
qed

lemma inflated_children_mono:
  "inflated_children E h lo hi t p ds cs \<Longrightarrow> lo' \<le> lo \<Longrightarrow> hi \<le> hi'
     \<Longrightarrow> inflated_children E h lo' hi' t p ds cs"
proof (induction E h lo hi t p ds cs rule: inflated_children.induct)
  case (1 E h lo hi t tpath cs)
  then show ?case by simp
next
  case (2 E h lo hi t tpath nm ver sub rest cs)
  show ?case
  proof (cases "fetchPackageMetadata E (nm @ ''@'' @ ver) tpath")
    case (Inl er)
    with 2 show ?thesis by simp
  next
    case (Inr pkg)
    with "2.prems" obtain c cs' n where cs: "cs = c # cs'" and c: "lo \<le> c" "c < hi"
      and n: "h c = Some n"
      by (auto split: list.splits option.splits)
    from "2.prems" Inr cs n have rest: "inflated_children E h lo hi t tpath rest cs'"
      and fields: "package n = pkg" "loaded n" "requiredby n = Some [t]"
         "path n = path_join E tpath ''node_modules'' (name pkg)"
      and sub: "(case sub of None \<Rightarrow> children n = Some []
                 | Some ds \<Rightarrow> (case children n of None \<Rightarrow> False
                     | Some k \<Rightarrow> inflated_children E h lo hi c (path n) ds k))"
      by auto
    have c': "lo' \<le> c" "c < hi'" using c "2.prems" by auto
    have rest': "inflated_children E h lo' hi' t tpath rest cs'"
      using "2.IH"(3)[OF Inr cs rest] "2.prems" by blast
    have sub': "(case sub of None \<Rightarrow> children n = Some []
                 | Some ds \<Rightarrow> (case children n of None \<Rightarrow> False
                     | Some k \<Rightarrow> inflated_children E h lo' hi' c (path n) ds k))"
    proof (cases sub)
      case None
      with sub show ?thesis by simp
    next
      case (Some ds)
      with sub obtain k where k: "children n = Some k"
        and ik: "inflated_children E h lo hi c (path n) ds k"
        by (auto split: option.splits)
      have "inflated_children E h lo' hi' c (path n) ds k"
        using "2.IH"(2)[OF Inr cs n Some k ik] "2.prems" by blast
      with Some k show ?thesis by simp
    qed
    from Inr cs c' n fields sub' rest' show ?thesis by simp
  qed
qed

lemma inflate_post_refl:
  "heap st tree = Some t \<Longrightarrow> children t = Some cs \<Longrightarrow> inflate_post E st st tree t cs []"
  by (simp add: inflate_post_def)

lemma inflate_post_both:
  "\<forall>t. tree < nextref st \<longrightarrow> heap st tree = Some t \<longrightarrow>
      (\<exists>st' r. inflateShrinkwrap E tree swdeps st = Inr (st', r) \<and>
          inflate_post E st st' tree t (case children t of None \<Rightarrow> [] | Some cs \<Rightarrow> cs) swdeps)"
  "\<forall>t cs. tree < nextref st \<longrightarrow> heap st tree = Some t \<longrightarrow> children t = Some cs \<longrightarrow>
      (\<exists>st' r. inflateEntries E tree ds am st = Inr (st', r) \<and>
          inflate_post E st st' tree t cs ds)"
proof (induction E tree swdeps st and E tree ds am st
        rule: inflateShrinkwrap_inflateEntries.induct)
  case (1 E tree swdeps st)
  show ?case
  proof (intro allI impI)
    fix t assume lt: "tree < nextref st" and t: "heap st tree = Some t"
    define st0 where "st0 = (if children t = None
        then update_node tree (children_update (\<lambda>_. Some [])) st else st)"
    define cs where "cs = (case children t of None \<Rightarrow> [] | Some cs \<Rightarrow> cs)"
    define t0 where "t0 = t\<lparr>children := Some cs\<rparr>"
    have t0: "heap st0 tree = Some t0" "children t0 = Some cs" "tree < nextref st0"
      using t lt by (auto simp: st0_def t0_def cs_def split: option.splits)
    have same: "nextref st0 = nextref st" "warnings st0 = warnings st"
      "\<And>x. x \<noteq> tree \<Longrightarrow> heap st0 x = heap st x"
      by (auto simp: st0_def)
    show "\<exists>st' r. inflateShrinkwrap E tree swdeps st = Inr (st', r) \<and>
          inflate_post E st st' tree t (case children t of None \<Rightarrow> [] | Some cs \<Rightarrow> cs) swdeps"
    proof (cases "swdeps = []")
      case True
      have "inflate_post E st st0 tree t cs []"
        using t0 same lt by (auto simp: inflate_post_def t0_def)
      with True t show ?thesis
        by (auto simp: st0_def cs_def Let_def)
    next
      case False
      from "1.IH"[OF t st0_def False] t0
      obtain st' r where r: "inflateEntries E tree swdeps (asyncMap_start (length swdeps)) st0 = Inr (st', r)"
        and post: "inflate_post E st0 st' tree t0 cs swdeps"
        by blast
      have "inflate_post E st st' tree t cs swdeps"
        using post same lt by (auto simp: inflate_post_def t0_def)
      with False t r show ?thesis
        by (auto simp: st0_def cs_def Let_def)
    qed
  qed
next
  case (2 E tree am st)
  then show ?case by (simp add: inflate_post_def)
next
  case (3 E tree nm ver subdeps rest am st)
  show ?case
  proof (intro allI impI)
    fix t cs assume lt: "tree < nextref st" and t: "heap st tree = Some t"
      and cs: "children t = Some cs"
    show "\<exists>st' r. inflateEntries E tree ((nm, Shrinkwrap ver subdeps) # rest) am st = Inr (st', r) \<and>
            inflate_post E st st' tree t cs ((nm, Shrinkwrap ver subdeps) # rest)"
    proof (cases "fetchPackageMetadata E (nm @ ''@'' @ ver) (path t)")
      case (Inl er)
      from "3.IH"(1)[OF t Inl] lt t cs
      obtain st' r where
        "inflateEntries E tree rest (am\<lparr> calls := calls am @ [(Some er, False)] \<rparr>) st = Inr (st', r)"
        "inflate_post E st st' tree t cs rest"
        by blast
      with Inl t show ?thesis
        by (auto simp: inflate_post_def)
    next
      case (Inr pkg)
      define c where "c = nextref st"
      define n where "n = \<lparr> package = pkg, children = Some [], parent = None,
                             requiredby = Some [tree], loaded = True,
                             path = path_join E (path t) ''node_modules'' (name pkg),
                             realpath = path_resolve E (realpath t) ''node_modules'' (name pkg) \<rparr>"
      define st1 where "st1 = alloc n st"
      define st2 where "st2 = update_node tree (push_child c) st1"
      define t2 where "t2 = t\<lparr>children := Some (cs @ [c])\<rparr>"
      have ne: "tree \<noteq> c" using lt by (simp add: c_def)
      have st2: "heap st2 tree = Some t2" "heap st2 c = Some n" "nextref st2 = Suc c"
        "warnings st2 = warnings st" "children t2 = Some (cs @ [c])"
        "\<And>x. x \<noteq> tree \<Longrightarrow> x \<noteq> c \<Longrightarrow> heap st2 x = heap st x"
        using t cs ne by (auto simp: st2_def st1_def t2_def c_def push_child_def)
      have lt2: "tree < nextref st2" using lt st2 by (simp add: c_def)
      show ?thesis
      proof (cases subdeps)
        case None
        from "3.IH"(2)[OF t Inr cs c_def st1_def[unfolded n_def] st2_def None] lt2 st2
        obtain st' r where r: "inflateEntries E tree rest (amcb (None, False) am) st2 = Inr (st', r)"
          and post: "inflate_post E st2 st' tree t2 (cs @ [c]) rest"
          by blast
        from post obtain news where
          mono: "nextref st2 \<le> nextref st'" and w: "warnings st' = warnings st2"
          and fr1: "\<And>x. x < nextref st2 \<Longrightarrow> x \<noteq> tree \<Longrightarrow> heap st' x = heap st2 x"
          and fr2: "\<And>x. nextref st' \<le> x \<Longrightarrow> heap st' x = heap st2 x"
          and tr: "heap st' tree = Some (t2\<lparr>children := Some ((cs @ [c]) @ news)\<rparr>)"
          and ic: "inflated_children E (heap st') (nextref st2) (nextref st') tree (path t2) rest news"
          by (auto simp: inflate_post_def)
        have hc: "heap st' c = Some n" using fr1[of c] st2 ne by simp
        have ic': "inflated_children E (heap st') (nextref st) (nextref st') tree (path t) rest news"
          using inflated_children_mono[OF ic, of "nextref st" "nextref st'"] st2
          by (simp add: c_def t2_def)
        have "inflated_children E (heap st') (nextref st) (nextref st') tree (path t)
                ((nm, Shrinkwrap ver subdeps) # rest) (c # news)"
          using Inr None hc ic' mono st2 by (simp add: n_def c_def)
        moreover have "heap st' tree = Some (t\<lparr>children := Some (cs @ c # news)\<rparr>)"
          using tr by (simp add: t2_def)
        moreover have "\<forall>x. x < nextref st \<and> x \<noteq> tree \<longrightarrow> heap st' x = heap st x"
          using fr1 st2 by (auto simp: c_def)
        moreover have "\<forall>x. nextref st' \<le> x \<longrightarrow> heap st' x = heap st x"
          using fr2 st2 mono lt by (auto simp: c_def)
        ultimately have "inflate_post E st st' tree t cs ((nm, Shrinkwrap ver subdeps) # rest)"
          using mono w st2 unfolding inflate_post_def c_def by auto
        moreover have "inflateEntries E tree ((nm, Shrinkwrap ver subdeps) # rest) am st = Inr (st', r)"
          using t Inr cs None r
          by (simp add: Let_def c_def n_def st1_def st2_def)
        ultimately show ?thesis by blast
      next
        case (Some deps)
        note defs = c_def st1_def[unfolded n_def] st2_def
        from "3.IH"(3)[OF t Inr cs defs Some] st2
        obtain st3 cs3 where r3: "inflateShrinkwrap E c deps st2 = Inr (st3, cs3)"
          and post3: "inflate_post E st2 st3 c n [] deps"
          by (fastforce simp: n_def)
        from post3 obtain news3 where
          mono3: "nextref st2 \<le> nextref st3" and w3: "warnings st3 = warnings st2"
          and fr13: "\<And>x. x < nextref st2 \<Longrightarrow> x \<noteq> c \<Longrightarrow> heap st3 x = heap st2 x"
          and fr23: "\<And>x. nextref st3 \<le> x \<Longrightarrow> heap st3 x = heap st2 x"
          and c3: "heap st3 c = Some (n\<lparr>children := Some news3\<rparr>)"
          and ic3: "inflated_children E (heap st3) (nextref st2) (nextref st3) c (path n) deps news3"
          by (auto simp: inflate_post_def)
        have t3: "heap st3 tree = Some t2" using fr13[of tree] lt2 ne st2 by simp
        have lt3: "tree < nextref st3" using lt2 mono3 by simp
        from "3.IH"(4)[OF t Inr cs defs Some r3 refl] lt3 t3 st2
        obtain st' r where
          r: "inflateEntries E tree rest (amcb_all cs3 am) st3 = Inr (st', r)"
          and post: "inflate_post E st3 st' tree t2 (cs @ [c]) rest"
          by blast
        from post obtain news where
          mono: "nextref st3 \<le> nextref st'" and w: "warnings st' = warnings st3"
          and fr1: "\<And>x. x < nextref st3 \<Longrightarrow> x \<noteq> tree \<Longrightarrow> heap st' x = heap st3 x"
          and fr2: "\<And>x. nextref st' \<le> x \<Longrightarrow> heap st' x = heap st3 x"
          and tr: "heap st' tree = Some (t2\<lparr>children := Some ((cs @ [c]) @ news)\<rparr>)"
          and ic: "inflated_children E (heap st') (nextref st3) (nextref st') tree (path t2) rest news"
          by (auto simp: inflate_post_def)
        have clt: "c < nextref st3" using st2 mono3 by simp
        have hc: "heap st' c = Some (n\<lparr>children := Some news3\<rparr>)"
          using fr1[of c] clt ne c3 by simp
        have "inflated_children E (heap st') (nextref st2) (nextref st3) c (path n) deps news3"
        proof (rule inflated_children_cong[OF ic3])
          fix x assume "nextref st2 \<le> x" "x < nextref st3"
          then show "heap st' x = heap st3 x"
            using fr1[of x] lt st2 by (simp add: c_def)
        qed
        then have icc: "inflated_children E (heap st') (nextref st) (nextref st') c (path n) deps news3"
          using inflated_children_mono[of E "heap st'" "nextref st2" "nextref st3" c "path n" deps news3
                  "nextref st" "nextref st'"] st2 mono
          by (simp add: c_def)
        have ic': "inflated_children E (heap st') (nextref st) (nextref st') tree (path t) rest news"
          using inflated_children_mono[OF ic, of "nextref st" "nextref st'"] st2 mono3
          by (simp add: c_def t2_def)
        have "inflated_children E (heap st') (nextref st) (nextref st') tree (path t)
                ((nm, Shrinkwrap ver subdeps) # rest) (c # news)"
          using Inr Some hc ic' icc mono clt by (simp add: n_def c_def)
        moreover have "heap st' tree = Some (t\<lparr>children := Some (cs @ c # news)\<rparr>)"
          using tr by (simp add: t2_def)
        moreover have "\<forall>x. x < nextref st \<and> x \<noteq> tree \<longrightarrow> heap st' x = heap st x"
        proof (intro allI impI)
          fix x assume x: "x < nextref st \<and> x \<noteq> tree"
          then have "heap st' x = heap st3 x" using fr1[of x] st2 mono3 by (simp add: c_def)
          also have "\<dots> = heap st2 x" using fr13[of x] x st2 by (simp add: c_def)
          also have "\<dots> = heap st x" using st2(6)[of x] x by (simp add: c_def)
          finally show "heap st' x = heap st x" .
        qed
        moreover have "\<forall>x. nextref st' \<le> x \<longrightarrow> heap st' x = heap st x"
        proof (intro allI impI)
          fix x assume x: "nextref st' \<le> x"
          then have "heap st' x = heap st3 x" using fr2[of x] by simp
          also have "\<dots> = heap st2 x" using fr23[of x] x mono by simp
          also have "\<dots> = heap st x" using st2(6)[of x] x mono mono3 st2(3) lt
            by (simp add: c_def)
          finally show "heap st' x = heap st x" .
        qed
        ultimately have "inflate_post E st st' tree t cs ((nm, Shrinkwrap ver subdeps) # rest)"
          using mono mono3 w w3 st2 unfolding inflate_post_def c_def by auto
        moreover have "inflateEntries E tree ((nm, Shrinkwrap ver subdeps) # rest) am st = Inr (st', r)"
          using t Inr cs Some r r3
          by (simp add: Let_def c_def n_def st1_def st2_def)
        ultimately show ?thesis by blast
      qed
    qed
  qed
qed

declare inflateShrinkwrap.simps [simp del]

lemma wf_state_lt: "wf_state st \<Longrightarrow> heap st r = Some n \<Longrightarrow> r < nextref st"
  by (metis wf_state_def not_le option.distinct(1))

lemma inflated_children_length:
  "inflated_children E h lo hi t p ds cs \<Longrightarrow> length cs = length (filter (resolves E p) ds)"
proof (induction ds arbitrary: cs)
  case Nil
  then show ?case by simp
next
  case (Cons d ds)
  obtain nm ver sub where d: "d = (nm, Shrinkwrap ver sub)"
    by (cases d, cases "snd d") auto
  show ?case
  proof (cases "fetchPackageMetadata E (nm @ ''@'' @ ver) p")
    case (Inl er)
    with Cons d show ?thesis by (simp add: resolves_def)
  next
    case (Inr pkg)
    with Cons.prems d obtain c cs' where "cs = c # cs'" "inflated_children E h lo hi t p ds cs'"
      by (auto split: list.splits)
    with Cons.IH Inr d show ?thesis by (simp add: resolves_def)
  qed
qed

text \<open>
  C7.  The lockfile inflater, on any node \<open>tree\<close> of a well-formed store and any pinned
  dependency map: it never throws, and the children of \<open>tree\<close> afterwards are its
  former children followed by one new node for each entry that the fetcher resolves
  (\<open>name@version\<close>, the exact spec, with the path of \<open>tree\<close>), in the order of the map.
  By \<open>inflated_children\<close> each new node has a reference that was free before, carries
  the resolved record, is loaded, is required by exactly \<open>tree\<close>, has the path
  \<open>join(path of tree, "node_modules", name of the record)\<close>, and has as children the
  nodes its own pinned dependencies give in the same way (none without them).  Nothing is
  assumed about the rest of the tree: no node elsewhere is consulted or changed, so a
  satisfying copy higher up does not stop the entry from creating its child.
\<close>

theorem inflateShrinkwrap_children:
  assumes t: "heap st tree = Some t" and wf: "wf_state st"
  shows "\<exists>st' r news.
           inflateShrinkwrap E tree swdeps st = Inr (st', r) \<and>
           heap st' tree =
             Some (t\<lparr>children := Some ((case children t of None \<Rightarrow> [] | Some cs \<Rightarrow> cs) @ news)\<rparr>) \<and>
           length news = length (filter (resolves E (path t)) swdeps) \<and>
           inflated_children E (heap st') (nextref st) (nextref st') tree (path t) swdeps news \<and>
           (\<forall>x n. x \<noteq> tree \<and> heap st x = Some n \<longrightarrow> heap st' x = Some n)"
proof -
  have lt: "tree < nextref st" using wf_state_lt[OF wf t] .
  from inflate_post_both(1)[of tree st E swdeps] lt t
  obtain st' r where r: "inflateShrinkwrap E tree swdeps st = Inr (st', r)"
    and post: "inflate_post E st st' tree t (case children t of None \<Rightarrow> [] | Some cs \<Rightarrow> cs) swdeps"
    by blast
  from post obtain news where
    tr: "heap st' tree =
           Some (t\<lparr>children := Some ((case children t of None \<Rightarrow> [] | Some cs \<Rightarrow> cs) @ news)\<rparr>)"
    and ic: "inflated_children E (heap st') (nextref st) (nextref st') tree (path t) swdeps news"
    and fr: "\<And>x. x < nextref st \<Longrightarrow> x \<noteq> tree \<Longrightarrow> heap st' x = heap st x"
    by (auto simp: inflate_post_def)
  have "\<forall>x n. x \<noteq> tree \<and> heap st x = Some n \<longrightarrow> heap st' x = Some n"
    using fr wf_state_lt[OF wf] by auto
  with r tr ic inflated_children_length[OF ic] show ?thesis by blast
qed

lemma wf_stW: "wf_state stW"
  by (auto simp: wf_state_def stW_def)

theorem inflateShrinkwrap_children_witness:
  "heap stW 0 = Some rootW \<and> wf_state stW \<and>
   (\<exists>st' r news.
      inflateShrinkwrap envW 0 swW stW = Inr (st', r) \<and>
      heap st' 0 = Some (rootW\<lparr>children := Some ([1] @ news)\<rparr>) \<and>
      length news = 1 \<and>
      inflated_children envW (heap st') 2 (nextref st') 0 ''/r'' swW news)"
proof -
  have h: "heap stW 0 = Some rootW" by (simp add: stW_def)
  have l: "length (filter (resolves envW (path rootW)) swW) = 1"
    by (simp add: resolves_def envW_def swW_def rootW_def)
  have c: "(case children rootW of None \<Rightarrow> [] | Some cs \<Rightarrow> cs) = [1]" "path rootW = ''/r''"
    "nextref stW = 2"
    by (simp_all add: rootW_def stW_def)
  from inflateShrinkwrap_children[OF h wf_stW, of envW swW, unfolded c]
  obtain st' r news where
    a: "inflateShrinkwrap envW 0 swW stW = Inr (st', r)"
    and b: "heap st' 0 = Some (rootW\<lparr>children := Some ([1] @ news)\<rparr>)"
    and d: "length news = length (filter (resolves envW ''/r'') swW)"
    and e: "inflated_children envW (heap st') 2 (nextref st') 0 ''/r'' swW news"
    by (elim exE conjE)
  from d l have d': "length news = 1" by (simp add: c)
  have "\<exists>st' r news.
      inflateShrinkwrap envW 0 swW stW = Inr (st', r) \<and>
      heap st' 0 = Some (rootW\<lparr>children := Some ([1] @ news)\<rparr>) \<and>
      length news = 1 \<and>
      inflated_children envW (heap st') 2 (nextref st') 0 ''/r'' swW news"
    using a b d' e by (intro exI conjI)
  with h wf_stW show ?thesis by (intro conjI)
qed


lemma filter_hd_mem: "filter P xs = e # r \<Longrightarrow> P e \<and> e \<in> set xs"
proof -
  assume "filter P xs = e # r"
  then have "e \<in> set (filter P xs)" by simp
  then show ?thesis by simp
qed

lemma requirementExists_matches_aux:
  assumes "requirementExists E h tree nm ver = Some y"
  shows "\<forall>e. y = Inr (Some e) \<longrightarrow> nameMatch h nm e \<and> versionMatch E h ver e"
proof (rule requirementExists.raw_induct[where P = "\<lambda>E h tree nm ver y.
           \<forall>e. y = Inr (Some e) \<longrightarrow> nameMatch h nm e \<and> versionMatch E h ver e",
         OF _ assms], goal_cases)
  case (1 rE E h tree nm ver y)
  note hyps = 1
  show ?case
  proof (intro allI impI)
    fix e assume y: "y = Inr (Some e)"
    from hyps(2) y obtain t where t: "h tree = Some t"
      by (auto split: option.splits)
    show "nameMatch h nm e \<and> versionMatch E h ver e"
    proof (cases "nameMatch h nm tree")
      case True
      with hyps(2) t y show ?thesis by (auto split: if_splits)
    next
      case nm: False
      with hyps(2) t y obtain cs where cs: "children t = Some cs"
        by (auto split: option.splits)
      show ?thesis
      proof (cases "filter (nameMatch h nm) cs = []")
        case True
        with hyps(2) t nm cs y obtain p where "parent t = Some p"
          and "rE E h p nm ver = Some y"
          by (auto simp: Let_def split: option.splits)
        with hyps(1) y show ?thesis by blast
      next
        case False
        with hyps(2) t nm cs y show ?thesis
          by (auto simp: Let_def split: list.splits dest: filter_hd_mem)
      qed
    qed
  qed
qed

lemma requirementExists_matches:
  "requirementExists E h tree nm ver = Some (Inr (Some e))
     \<Longrightarrow> nameMatch h nm e \<and> versionMatch E h ver e"
  using requirementExists_matches_aux by blast

lemma chosen_parent_earliest:
  "chosen_parent h nm (a # list) =
     (case earliest_on_chain h nm (a # list) of None \<Rightarrow> a | Some b \<Rightarrow> b)"
proof (cases "free_of h nm a")
  case True
  define d where "d = dropWhile (free_of h nm) list"
  show ?thesis
    unfolding chosen_parent_def earliest_on_chain_def using True
    by (simp add: d_def[symmetric] split: list.splits)
next
  case False
  then show ?thesis
    unfolding chosen_parent_def earliest_on_chain_def by simp
qed

lemma earliest_on_chain_step:
  "free_of h nm t \<Longrightarrow>
   earliest_on_chain h nm (t # p # up) =
     (case earliest_on_chain h nm (p # up) of None \<Rightarrow> Some t | Some a \<Rightarrow> Some a)"
proof -
  assume fr: "free_of h nm t"
  have d: "dropWhile (free_of h nm) (t # p # up) = dropWhile (free_of h nm) (p # up)"
    using fr by simp
  have k: "takeWhile (free_of h nm) (t # p # up) = t # takeWhile (free_of h nm) (p # up)"
    using fr by simp
  have gen: "\<And>d' k'.
      (case d' of [] \<Rightarrow> Some (last (t # p # up))
       | b # _ \<Rightarrow> if nameMatch h nm b then Some b
                  else (case t # k' of [] \<Rightarrow> None | x # xs \<Rightarrow> Some (last (x # xs)))) =
      (case (case d' of [] \<Rightarrow> Some (last (p # up))
             | b # _ \<Rightarrow> if nameMatch h nm b then Some b
                        else (case k' of [] \<Rightarrow> None | x # xs \<Rightarrow> Some (last (x # xs)))) of
         None \<Rightarrow> Some t | Some a \<Rightarrow> Some a)"
    by (auto split: list.splits)
  show ?thesis
    unfolding earliest_on_chain_def d k by (rule gen)
qed

lemma earliestInstallable_chain:
  "is_chain h (t # up) \<Longrightarrow>
   earliestInstallable h t nm = Some (Inr (earliest_on_chain h nm (t # up)))"
proof (induction up arbitrary: t)
  case Nil
  then obtain n cs where n: "h t = Some n" "children n = Some cs" "parent n = None"
    by (auto split: option.splits)
  then show ?case
    by (subst earliestInstallable.simps)
       (auto simp: earliest_on_chain_def free_of_def kids_def)
next
  case (Cons p up)
  then obtain n cs where n: "h t = Some n" "children n = Some cs" "parent n = Some p"
    and ch: "is_chain h (p # up)"
    by (auto split: option.splits)
  show ?case
  proof (cases "free_of h nm t")
    case True
    have "earliestInstallable h t nm =
            Option.bind (earliestInstallable h p nm)
              (\<lambda>r. Some (case r of Inl e \<Rightarrow> Inl e | Inr None \<Rightarrow> Inr (Some t)
                                | Inr (Some a) \<Rightarrow> Inr (Some a)))"
      using n True by (subst earliestInstallable.simps) (auto simp: free_of_def kids_def)
    also have "\<dots> = Some (Inr (case earliest_on_chain h nm (p # up) of
                                  None \<Rightarrow> Some t | Some a \<Rightarrow> Some a))"
      using Cons.IH[OF ch] by (simp split: option.splits)
    finally show ?thesis using earliest_on_chain_step[OF True] by simp
  next
    case False
    with n show ?thesis
      by (subst earliestInstallable.simps)
         (auto simp: earliest_on_chain_def free_of_def kids_def)
  qed
qed

lemma is_chain_allocated:
  "is_chain h ns \<Longrightarrow> x \<in> set ns \<Longrightarrow> \<exists>n cs. h x = Some n \<and> children n = Some cs"
proof (induction ns)
  case Nil
  then show ?case by simp
next
  case (Cons t up)
  from Cons.prems(1) obtain n cs where n: "h t = Some n" "children n = Some cs"
    by (cases up) (auto split: option.splits)
  show ?case
  proof (cases "x = t")
    case True
    with n show ?thesis by simp
  next
    case False
    with Cons.prems(2) have x: "x \<in> set up" by simp
    then obtain p up' where up: "up = p # up'" by (cases up) auto
    with Cons.prems(1) have "is_chain h up" by (simp split: option.splits)
    with Cons.IH x show ?thesis by simp
  qed
qed

lemma chosen_parent_on_chain: "chosen_parent h nm (t # up) \<in> set (t # up)"
proof (cases "dropWhile (free_of h nm) (t # up)")
  case Nil
  have "chosen_parent h nm (t # up) = last (t # up)"
    unfolding chosen_parent_def Nil by simp
  then show ?thesis
    using last_in_set[of "t # up"] by simp
next
  case (Cons b bs)
  then have "b \<in> set (dropWhile (free_of h nm) (t # up))"
    by (simp del: dropWhile.simps)
  then have b: "b \<in> set (t # up)"
    by (rule set_dropWhileD)
  have "last (t # takeWhile (free_of h nm) (t # up)) \<in> set (t # takeWhile (free_of h nm) (t # up))"
    by (rule last_in_set) simp
  moreover have "\<And>x. x \<in> set (takeWhile (free_of h nm) (t # up)) \<Longrightarrow> x \<in> set (t # up)"
    by (drule set_takeWhileD) (rule conjunct1)
  ultimately have l: "last (t # takeWhile (free_of h nm) (t # up)) \<in> set (t # up)"
    by (auto simp del: takeWhile.simps)
  have "chosen_parent h nm (t # up) =
          (if nameMatch h nm b then b else last (t # takeWhile (free_of h nm) (t # up)))"
    unfolding chosen_parent_def Cons by simp
  with b l show ?thesis by (simp del: takeWhile.simps dropWhile.simps)
qed

lemma addChild_new_result:
  assumes wf: "wf_state st"
    and p: "heap st p = Some pn" "children pn = Some cs"
    and e: "(case earliest of Some a \<Rightarrow> a | None \<Rightarrow> T) = p"
  shows "\<exists>st' r cn.
           addChild_new E pkg T t earliest st = Inr (st', r) \<and>
           heap st' p = Some (pn\<lparr>children := Some (cs @ [nextref st])\<rparr>) \<and>
           heap st' (nextref st) = Some cn \<and>
           package cn = pkg \<and> parent cn = Some p \<and> loaded cn \<and> requiredby cn = Some [T] \<and>
           path cn = path_join E (path pn) ''node_modules'' (name pkg) \<and>
           (\<forall>x n. x \<noteq> p \<and> heap st x = Some n \<longrightarrow> heap st' x = Some n)"
proof -
  define c where "c = nextref st"
  define n where "n = \<lparr> package = pkg, children = Some [], parent = Some p,
                        requiredby = Some [T], loaded = True,
                        path = path_join E (path pn) ''node_modules'' (name pkg),
                        realpath = path_resolve E (realpath pn) ''node_modules'' (name pkg) \<rparr>"
  define st2 where "st2 = update_node p (push_child c) (alloc n st)"
  have plt: "p < c" using wf_state_lt[OF wf p(1)] by (simp add: c_def)
  have st2: "heap st2 p = Some (pn\<lparr>children := Some (cs @ [c])\<rparr>)" "heap st2 c = Some n"
    "nextref st2 = Suc c" "\<And>x. x \<noteq> p \<Longrightarrow> x \<noteq> c \<Longrightarrow> heap st2 x = heap st x"
    using p plt by (auto simp: st2_def c_def push_child_def)
  have old: "\<And>x m. heap st x = Some m \<Longrightarrow> x < c"
    using wf_state_lt[OF wf] by (simp add: c_def)
  have unfold: "addChild_new E pkg T t earliest st =
      (case shrinkwrap pkg of
         Some (Some deps) \<Rightarrow> inflated t (inflateShrinkwrap E c deps st2)
       | _ \<Rightarrow> Inr (st2, [Inr (Node c)]))"
    using p e by (simp add: addChild_new_def Let_def c_def n_def st2_def split: option.splits)
  have nfields: "package n = pkg" "parent n = Some p" "loaded n" "requiredby n = Some [T]"
    "path n = path_join E (path pn) ''node_modules'' (name pkg)"
    by (simp_all add: n_def)
  show ?thesis
  proof (cases "\<exists>deps. shrinkwrap pkg = Some (Some deps)")
    case False
    then have res: "addChild_new E pkg T t earliest st = Inr (st2, [Inr (Node c)])"
      unfolding unfold by (auto split: option.splits)
    have fr: "\<forall>x m. x \<noteq> p \<and> heap st x = Some m \<longrightarrow> heap st2 x = Some m"
    proof (intro allI impI)
      fix x m assume x: "x \<noteq> p \<and> heap st x = Some m"
      then have "x < c" using old by blast
      then show "heap st2 x = Some m" using st2(4)[of x] x by simp
    qed
    show ?thesis
      apply (rule exI[of _ st2], rule exI[of _ "[Inr (Node c)]"], rule exI[of _ n])
      using res st2(1) st2(2) nfields fr unfolding c_def[symmetric] by blast
  next
    case True
    then obtain deps where deps: "shrinkwrap pkg = Some (Some deps)" by blast
    have hc: "heap st2 c = Some n" "c < nextref st2" "children n = Some []"
      using st2 by (simp_all add: n_def)
    from inflate_post_both(1)[of c st2 E deps, rule_format, OF hc(2) hc(1)]
    obtain st' r0 where r: "inflateShrinkwrap E c deps st2 = Inr (st', r0)"
      and post: "inflate_post E st2 st' c n [] deps"
      using hc(3) by auto
    from post obtain news where
      fr: "\<And>x. x < nextref st2 \<Longrightarrow> x \<noteq> c \<Longrightarrow> heap st' x = heap st2 x"
      and cn: "heap st' c = Some (n\<lparr>children := Some news\<rparr>)"
      unfolding inflate_post_def by auto
    have "addChild_new E pkg T t earliest st = inflated t (Inr (st', r0))"
      unfolding unfold using deps r by simp
    then obtain r' where res: "addChild_new E pkg T t earliest st = Inr (st', r')"
      by (simp add: inflated_def)
    have hp: "heap st' p = Some (pn\<lparr>children := Some (cs @ [c])\<rparr>)"
      using fr[of p] plt st2(1) st2(3) by simp
    have fr': "\<forall>x m. x \<noteq> p \<and> heap st x = Some m \<longrightarrow> heap st' x = Some m"
    proof (intro allI impI)
      fix x m assume x: "x \<noteq> p \<and> heap st x = Some m"
      then have "x < c" using old by blast
      then show "heap st' x = Some m" using fr[of x] st2(3) st2(4)[of x] x by simp
    qed
    have nfields': "package (n\<lparr>children := Some news\<rparr>) = pkg"
      "parent (n\<lparr>children := Some news\<rparr>) = Some p" "loaded (n\<lparr>children := Some news\<rparr>)"
      "requiredby (n\<lparr>children := Some news\<rparr>) = Some [T]"
      "path (n\<lparr>children := Some news\<rparr>) = path_join E (path pn) ''node_modules'' (name pkg)"
      using nfields by simp_all
    show ?thesis
      apply (rule exI[of _ st'], rule exI[of _ r'], rule exI[of _ "n\<lparr>children := Some news\<rparr>"])
      using res hp cn nfields' fr' unfolding c_def[symmetric] by blast
  qed
qed

lemma addChild_unfold:
  assumes "heap st T = Some t" "fetchPackageMetadata E spc (path t) = Inr pkg"
    "requested pkg = Some rq"
    "requirementExists E (heap st) T (name pkg)
       (if spec rq \<noteq> [] then spec rq else version pkg) = Some (Inr r)"
  shows "addChild E spc T st =
     (case r of
        Some child \<Rightarrow> Some (addChild_existing E pkg rq T t child st)
      | None \<Rightarrow>
          (case earliestInstallable (heap st) T (name pkg) of
             None \<Rightarrow> None
           | Some (Inl e) \<Rightarrow> Some (Inl e)
           | Some (Inr earliest) \<Rightarrow> Some (addChild_new E pkg T t earliest st)))"
  using assms by (simp add: addChild_def split: option.splits)

text \<open>
  C2, as amended.  The claim says that when an ancestor has a child named \<open>name\<close> the
  new node goes under \<open>T\<close> itself (\<open>claimed_parent\<close>).  The code places it under the
  highest node of the walk below that ancestor (\<open>chosen_parent\<close>): \<open>earliestInstallable\<close>
  gives \<open>null\<close> only for the node that has the conflicting child, and each caller on
  the way back replaces \<open>null\<close> by itself.  The two agree when the node with the
  conflicting child is \<open>T\<close> or the parent of \<open>T\<close>.

  For a call of \<open>addChild\<close> at \<open>T\<close> whose resolved record finds no satisfying node,
  with \<open>T # up\<close> the chain of parents from \<open>T\<close> to the root: the new node is the fresh
  reference, its parent link and its path are those of \<open>chosen_parent\<close>, and it is
  appended to the children of that node.  \<open>chosen_parent\<close> walks up while the node is
  not named \<open>name\<close> and has no child named \<open>name\<close>; it is the root when the walk
  passes every node, the node where the walk stops when that node is named \<open>name\<close>,
  and otherwise the last node passed (\<open>T\<close> when none was).
\<close>

theorem addChild_places_under_chosen_parent:
  assumes wf: "wf_state st"
    and t: "heap st T = Some t"
    and f: "fetchPackageMetadata E spc (path t) = Inr pkg"
    and rq: "requested pkg = Some rq"
    and none: "requirementExists E (heap st) T (name pkg)
                 (if spec rq \<noteq> [] then spec rq else version pkg) = Some (Inr None)"
    and chain: "is_chain (heap st) (T # up)"
  shows "\<exists>st' r pn cs cn.
           addChild E spc T st = Some (Inr (st', r)) \<and>
           heap st (chosen_parent (heap st) (name pkg) (T # up)) = Some pn \<and>
           children pn = Some cs \<and>
           heap st' (chosen_parent (heap st) (name pkg) (T # up)) =
             Some (pn\<lparr>children := Some (cs @ [nextref st])\<rparr>) \<and>
           heap st' (nextref st) = Some cn \<and>
           package cn = pkg \<and>
           parent cn = Some (chosen_parent (heap st) (name pkg) (T # up)) \<and>
           path cn = path_join E (path pn) ''node_modules'' (name pkg)"
proof -
  define P where "P = chosen_parent (heap st) (name pkg) (T # up)"
  define earliest where "earliest = earliest_on_chain (heap st) (name pkg) (T # up)"
  have ei: "earliestInstallable (heap st) T (name pkg) = Some (Inr earliest)"
    unfolding earliest_def by (rule earliestInstallable_chain[OF chain])
  have e: "(case earliest of Some a \<Rightarrow> a | None \<Rightarrow> T) = P"
    unfolding P_def earliest_def chosen_parent_earliest by (simp split: option.splits)
  have "P \<in> set (T # up)" unfolding P_def by (rule chosen_parent_on_chain)
  from is_chain_allocated[OF chain this]
  obtain pn cs where p: "heap st P = Some pn" "children pn = Some cs" by blast
  have a: "addChild E spc T st = Some (addChild_new E pkg T t earliest st)"
    using addChild_unfold[OF t f rq none] ei by simp
  from addChild_new_result[OF wf p e, of E pkg t]
  obtain st' r cn where
    "addChild_new E pkg T t earliest st = Inr (st', r)"
    "heap st' P = Some (pn\<lparr>children := Some (cs @ [nextref st])\<rparr>)"
    "heap st' (nextref st) = Some cn" "package cn = pkg" "parent cn = Some P"
    "path cn = path_join E (path pn) ''node_modules'' (name pkg)"
    by (elim exE conjE)
  with a p show ?thesis
    unfolding P_def[symmetric] by (intro exI conjI) simp_all
qed

text \<open>
  C2 as stated fails: the root (0) has the children \<open>b@1\<close> (1) and \<open>p\<close> (2), and \<open>p\<close>
  has the child \<open>T\<close> (3).  Adding \<open>b@2\<close> at \<open>T\<close> finds no satisfying node; the ancestor
  with the conflicting child is the root, the claim places the new node (4) under \<open>T\<close>,
  the code places it under \<open>p\<close>.
\<close>

theorem placement_under_T_counterexample:
  "requirementExists envW (heap st_hoist) 3 ''b'' ''2'' = Some (Inr None) \<and>
   claimed_parent (heap st_hoist) ''b'' [3, 2, 0] = 3 \<and>
   callback_of (addChild envW ''b@2'' 3 st_hoist) = Some [Inr (Node 4)] \<and>
   parent_after (addChild envW ''b@2'' 3 st_hoist) 4 = Some 2 \<and>
   children_after (addChild envW ''b@2'' 3 st_hoist) 2 = Some [3, 4] \<and>
   children_after (addChild envW ''b@2'' 3 st_hoist) 3 = Some []"
  by code_simp

lemma noteRequiredby_fields [simp]:
  "package (noteRequiredby T n) = package n" "children (noteRequiredby T n) = children n"
  "parent (noteRequiredby T n) = parent n" "loaded (noteRequiredby T n) = loaded n"
  "path (noteRequiredby T n) = path n"
  by (simp_all add: noteRequiredby_def Let_def)

lemma mergeRequested_fields [simp]:
  "children (mergeRequested E rq n) = children n" "parent (mergeRequested E rq n) = parent n"
  "loaded (mergeRequested E rq n) = loaded n" "path (mergeRequested E rq n) = path n"
  "requiredby (mergeRequested E rq n) = requiredby n"
  "name (package (mergeRequested E rq n)) = name (package n)"
  "version (package (mergeRequested E rq n)) = version (package n)"
  by (simp_all add: mergeRequested_def Let_def)

lemma requiredby_noteRequiredby:
  "requiredby (noteRequiredby T n) =
     Some ((case requiredby n of None \<Rightarrow> [] | Some rb \<Rightarrow> rb) @
           (if T \<in> set (case requiredby n of None \<Rightarrow> [] | Some rb \<Rightarrow> rb) then [] else [T]))"
  by (auto simp: noteRequiredby_def Let_def filter_empty_conv split: option.splits)

lemma inflated_call_not_node: "inflated_call t c \<noteq> Inr (Node x)"
  by (simp add: inflated_call_def split: option.splits)

lemma addChild_existing_result:
  assumes wf: "wf_state st" and e: "heap st e = Some en"
  shows "\<exists>st' r en'.
           addChild_existing E pkg rq T t e st = Inr (st', r) \<and>
           heap st' e = Some en' \<and>
           package en' = package (mergeRequested E rq en) \<and>
           requiredby en' = requiredby (noteRequiredby T en) \<and>
           parent en' = parent en \<and> path en' = path en \<and> loaded en' \<and>
           (\<forall>x n. x \<noteq> e \<and> heap st x = Some n \<longrightarrow> heap st' x = Some n) \<and>
           (loaded en \<longrightarrow> r = [Inr Undefined]) \<and>
           (\<not> loaded en \<and> (\<forall>ds. shrinkwrap pkg \<noteq> Some (Some ds)) \<longrightarrow> r = [Inr (Node e)]) \<and>
           (loaded en \<or> (\<forall>ds. shrinkwrap pkg \<noteq> Some (Some ds)) \<longrightarrow>
              children en' = children en \<and> nextref st' = nextref st \<and>
              (\<forall>x. nextref st \<le> x \<longrightarrow> heap st' x = None)) \<and>
           (\<forall>ds. \<not> loaded en \<and> shrinkwrap pkg = Some (Some ds) \<longrightarrow>
              (\<forall>c. Inr (Node c) \<notin> set r) \<and>
              (\<exists>news. children en' =
                         Some ((case children en of None \<Rightarrow> [] | Some cs \<Rightarrow> cs) @ news) \<and>
                       length news = length (filter (resolves E (path en)) ds) \<and>
                       inflated_children E (heap st') (nextref st) (nextref st') e (path en)
                         ds news))"
proof -
  define en1 where "en1 = noteRequiredby T (mergeRequested E rq en)"
  define st1 where "st1 = update_node e (\<lambda>n. noteRequiredby T (mergeRequested E rq n)) st"
  define en2 where "en2 = en1\<lparr>loaded := True\<rparr>"
  define st2 where "st2 = update_node e (\<lambda>n. n\<lparr>loaded := True\<rparr>) st1"
  have elt: "e < nextref st" using wf_state_lt[OF wf e] .
  have st1: "heap st1 e = Some en1" "nextref st1 = nextref st"
    "\<And>x. x \<noteq> e \<Longrightarrow> heap st1 x = heap st x"
    using e by (simp_all add: st1_def en1_def)
  have st2: "heap st2 e = Some en2" "nextref st2 = nextref st"
    "\<And>x. x \<noteq> e \<Longrightarrow> heap st2 x = heap st x"
    using st1 by (simp_all add: st2_def en2_def)
  have f1: "package en1 = package (mergeRequested E rq en)"
    "requiredby en1 = requiredby (noteRequiredby T en)"
    "parent en1 = parent en" "path en1 = path en" "children en1 = children en"
    "loaded en1 = loaded en"
    by (simp_all add: en1_def noteRequiredby_def Let_def)
  have f2: "package en2 = package (mergeRequested E rq en)"
    "requiredby en2 = requiredby (noteRequiredby T en)"
    "parent en2 = parent en" "path en2 = path en" "children en2 = children en" "loaded en2"
    using f1 by (simp_all add: en2_def)
  have none1: "\<forall>x. nextref st \<le> x \<longrightarrow> heap st1 x = None"
    using wf elt st1(3) by (auto simp: wf_state_def)
  have none2: "\<forall>x. nextref st \<le> x \<longrightarrow> heap st2 x = None"
    using wf elt st2(3) by (auto simp: wf_state_def)
  have unfold: "addChild_existing E pkg rq T t e st =
      (if loaded en then Inr (st1, [Inr Undefined])
       else case shrinkwrap pkg of
              Some (Some deps) \<Rightarrow> inflated t (inflateShrinkwrap E e deps st2)
            | _ \<Rightarrow> Inr (st2, [Inr (Node e)]))"
    using e by (simp add: addChild_existing_def Let_def st1_def st2_def split: option.splits)
  show ?thesis
  proof (cases "loaded en")
    case True
    then have res: "addChild_existing E pkg rq T t e st = Inr (st1, [Inr Undefined])"
      unfolding unfold by simp
    have fr: "\<forall>x n. x \<noteq> e \<and> heap st x = Some n \<longrightarrow> heap st1 x = Some n"
      using st1(3) by simp
    show ?thesis
      apply (rule exI[of _ st1], rule exI[of _ "[Inr Undefined]"], rule exI[of _ en1])
      using res st1(1) st1(2) f1 fr none1 True by simp
  next
    case nl: False
    show ?thesis
    proof (cases "\<exists>ds. shrinkwrap pkg = Some (Some ds)")
      case False
      then have res: "addChild_existing E pkg rq T t e st = Inr (st2, [Inr (Node e)])"
        unfolding unfold using nl by (auto split: option.splits)
      have fr: "\<forall>x n. x \<noteq> e \<and> heap st x = Some n \<longrightarrow> heap st2 x = Some n"
        using st2(3) by simp
      show ?thesis
        apply (rule exI[of _ st2], rule exI[of _ "[Inr (Node e)]"], rule exI[of _ en2])
        using res st2(1) st2(2) f2 fr none2 nl False by simp
    next
      case True
      then obtain ds where ds: "shrinkwrap pkg = Some (Some ds)" by blast
      have lt2: "e < nextref st2" using elt st2(2) by simp
      from inflate_post_both(1)[of e st2 E ds, rule_format, OF lt2 st2(1)]
      obtain st' r0 where r: "inflateShrinkwrap E e ds st2 = Inr (st', r0)"
        and post: "inflate_post E st2 st' e en2
                     (case children en2 of None \<Rightarrow> [] | Some cs \<Rightarrow> cs) ds"
        by auto
      from post obtain news where
        fr: "\<And>x. x < nextref st2 \<Longrightarrow> x \<noteq> e \<Longrightarrow> heap st' x = heap st2 x"
        and cn: "heap st' e = Some (en2\<lparr>children :=
                   Some ((case children en2 of None \<Rightarrow> [] | Some cs \<Rightarrow> cs) @ news)\<rparr>)"
        and ic: "inflated_children E (heap st') (nextref st2) (nextref st') e (path en2) ds news"
        unfolding inflate_post_def by auto
      define en' where "en' = en2\<lparr>children :=
                   Some ((case children en of None \<Rightarrow> [] | Some cs \<Rightarrow> cs) @ news)\<rparr>"
      have cn': "heap st' e = Some en'" using cn f2 by (simp add: en'_def)
      have ic': "inflated_children E (heap st') (nextref st) (nextref st') e (path en) ds news"
        using ic st2(2) f2 by simp
      have len: "length news = length (filter (resolves E (path en)) ds)"
        using inflated_children_length[OF ic'] .
      define r' where "r' = map (inflated_call t) r0"
      have res: "addChild_existing E pkg rq T t e st = Inr (st', r')"
        unfolding unfold r'_def using nl ds r by (simp add: inflated_def)
      have notnode: "\<forall>c. Inr (Node c) \<notin> set r'"
      proof (intro allI notI)
        fix c assume "Inr (Node c) \<in> set r'"
        then obtain x where "inflated_call t x = Inr (Node c)" by (auto simp: r'_def)
        then show False by (simp add: inflated_call_not_node)
      qed
      have fr': "\<forall>x m. x \<noteq> e \<and> heap st x = Some m \<longrightarrow> heap st' x = Some m"
      proof (intro allI impI)
        fix x m assume x: "x \<noteq> e \<and> heap st x = Some m"
        then have "x < nextref st" using wf_state_lt[OF wf] by blast
        then show "heap st' x = Some m" using fr[of x] st2(2) st2(3)[of x] x by simp
      qed
      have f': "package en' = package (mergeRequested E rq en)"
        "requiredby en' = requiredby (noteRequiredby T en)"
        "parent en' = parent en" "path en' = path en" "loaded en'"
        "children en' = Some ((case children en of None \<Rightarrow> [] | Some cs \<Rightarrow> cs) @ news)"
        using f2 by (simp_all add: en'_def)
      show ?thesis
        apply (rule exI[of _ st'], rule exI[of _ r'], rule exI[of _ en'])
        using res cn' f' fr' nl ds notnode len ic' by auto
    qed
  qed
qed


lemma met_on_chain_step:
  "free_of h nm t \<Longrightarrow>
   met_on_chain E h nm ver (t # p # up) = met_on_chain E h nm ver (p # up)"
  by (simp add: met_on_chain_def)

lemma requirementExists_chain:
  "is_chain h (t # up) \<Longrightarrow>
   requirementExists E h t nm ver = Some (Inr (met_on_chain E h nm ver (t # up)))"
proof (induction up arbitrary: t)
  case Nil
  then obtain n cs where n: "h t = Some n" "children n = Some cs" "parent n = None"
    by (auto split: option.splits)
  then show ?case
    by (subst requirementExists.simps)
       (auto simp: met_on_chain_def free_of_def kids_def Let_def split: list.splits)
next
  case (Cons p up)
  then obtain n cs where n: "h t = Some n" "children n = Some cs" "parent n = Some p"
    and ch: "is_chain h (p # up)"
    by (auto split: option.splits)
  show ?case
  proof (cases "free_of h nm t")
    case True
    have "requirementExists E h t nm ver = requirementExists E h p nm ver"
      using n True
      by (subst requirementExists.simps) (auto simp: free_of_def kids_def Let_def)
    then show ?thesis
      using Cons.IH[OF ch] met_on_chain_step[OF True] by simp
  next
    case False
    with n show ?thesis
      by (subst requirementExists.simps)
         (auto simp: met_on_chain_def free_of_def kids_def Let_def split: list.splits)
  qed
qed

text \<open>
  C1, as amended.  With \<open>T # up\<close> the chain of parents from \<open>T\<close> to the root, the walk
  of \<open>requirementExists\<close> is \<open>met_on_chain\<close>: it stops at the first node of the chain
  that is named as the resolved record or has a child named so.  If that node is named
  so itself, it is the result when its version satisfies the range and there is no result
  otherwise, whatever its children and the nodes above hold; if not, the result is its
  first child named so whose version satisfies the range, and there is none when no such
  child satisfies it or when the walk passes the root.

  When the walk gives the node \<open>e\<close>, which may be any number of parent links above \<open>T\<close>:
  \<open>e\<close> is named as the record and its version satisfies the range; \<open>addChild\<close> returns
  normally; \<open>T\<close> is appended to the \<open>requiredby\<close> list of \<open>e\<close> unless it is there; every
  other node of the store is unchanged.  If \<open>e\<close> was loaded the callback is called once
  and receives no node; if it was not and the record has no lockfile dependencies the
  callback is called once with \<open>e\<close>; in both cases no reference is allocated and the
  children of \<open>e\<close> are unchanged.  If \<open>e\<close> was not loaded and the record has lockfile
  dependencies no call of the callback receives a node and the children of \<open>e\<close> are
  extended by the inflated entries.  When the walk gives no node, \<open>addChild\<close> creates a
  node for the record at a reference that was free.
\<close>

theorem addChild_requirement_met:
  assumes wf: "wf_state st"
    and t: "heap st T = Some t"
    and f: "fetchPackageMetadata E spc (path t) = Inr pkg"
    and rq: "requested pkg = Some rq"
    and chain: "is_chain (heap st) (T # up)"
  shows "(\<forall>e. met_on_chain E (heap st) (name pkg)
                 (if spec rq \<noteq> [] then spec rq else version pkg) (T # up) = Some e \<longrightarrow>
           (\<exists>st' r en en'.
              addChild E spc T st = Some (Inr (st', r)) \<and>
              heap st e = Some en \<and>
              name (package en) = name pkg \<and>
              satisfies E (version (package en))
                (if spec rq \<noteq> [] then spec rq else version pkg) \<and>
              heap st' e = Some en' \<and>
              requiredby en' =
                Some ((case requiredby en of None \<Rightarrow> [] | Some rb \<Rightarrow> rb) @
                      (if T \<in> set (case requiredby en of None \<Rightarrow> [] | Some rb \<Rightarrow> rb)
                       then [] else [T])) \<and>
              (\<forall>x n. x \<noteq> e \<and> heap st x = Some n \<longrightarrow> heap st' x = Some n) \<and>
              (loaded en \<longrightarrow> r = [Inr Undefined]) \<and>
              (\<not> loaded en \<and> (\<forall>ds. shrinkwrap pkg \<noteq> Some (Some ds)) \<longrightarrow> r = [Inr (Node e)]) \<and>
              (loaded en \<or> (\<forall>ds. shrinkwrap pkg \<noteq> Some (Some ds)) \<longrightarrow>
                 children en' = children en \<and> nextref st' = nextref st \<and>
                 (\<forall>x. nextref st \<le> x \<longrightarrow> heap st' x = None)) \<and>
              (\<forall>ds. \<not> loaded en \<and> shrinkwrap pkg = Some (Some ds) \<longrightarrow>
                 (\<forall>c. Inr (Node c) \<notin> set r) \<and>
                 (\<exists>news. children en' =
                            Some ((case children en of None \<Rightarrow> [] | Some cs \<Rightarrow> cs) @ news) \<and>
                          length news = length (filter (resolves E (path en)) ds) \<and>
                          inflated_children E (heap st') (nextref st) (nextref st') e (path en)
                            ds news)))) \<and>
         (met_on_chain E (heap st) (name pkg)
            (if spec rq \<noteq> [] then spec rq else version pkg) (T # up) = None \<longrightarrow>
           (\<exists>st' r cn.
              addChild E spc T st = Some (Inr (st', r)) \<and>
              heap st (nextref st) = None \<and>
              heap st' (nextref st) = Some cn \<and> package cn = pkg \<and>
              requiredby cn = Some [T]))"
proof (intro conjI allI impI)
  fix e
  assume met: "met_on_chain E (heap st) (name pkg)
                 (if spec rq \<noteq> [] then spec rq else version pkg) (T # up) = Some e"
  have re: "requirementExists E (heap st) T (name pkg)
               (if spec rq \<noteq> [] then spec rq else version pkg) = Some (Inr (Some e))"
    using requirementExists_chain[OF chain] met by simp
  from requirementExists_matches[OF re]
  obtain en where en: "heap st e = Some en" and nm: "name (package en) = name pkg"
    and sat: "satisfies E (version (package en))
                (if spec rq \<noteq> [] then spec rq else version pkg)"
    by (auto simp: nameMatch_def versionMatch_def split: option.splits)
  have a: "addChild E spc T st = Some (addChild_existing E pkg rq T t e st)"
    using addChild_unfold[OF t f rq re] by simp
  from addChild_existing_result[OF wf en, of E pkg rq T t]
  obtain st' r en' where res: "addChild_existing E pkg rq T t e st = Inr (st', r)"
    and rest: "heap st' e = Some en' \<and>
           package en' = package (mergeRequested E rq en) \<and>
           requiredby en' = requiredby (noteRequiredby T en) \<and>
           parent en' = parent en \<and> path en' = path en \<and> loaded en' \<and>
           (\<forall>x n. x \<noteq> e \<and> heap st x = Some n \<longrightarrow> heap st' x = Some n) \<and>
           (loaded en \<longrightarrow> r = [Inr Undefined]) \<and>
           (\<not> loaded en \<and> (\<forall>ds. shrinkwrap pkg \<noteq> Some (Some ds)) \<longrightarrow> r = [Inr (Node e)]) \<and>
           (loaded en \<or> (\<forall>ds. shrinkwrap pkg \<noteq> Some (Some ds)) \<longrightarrow>
              children en' = children en \<and> nextref st' = nextref st \<and>
              (\<forall>x. nextref st \<le> x \<longrightarrow> heap st' x = None)) \<and>
           (\<forall>ds. \<not> loaded en \<and> shrinkwrap pkg = Some (Some ds) \<longrightarrow>
              (\<forall>c. Inr (Node c) \<notin> set r) \<and>
              (\<exists>news. children en' =
                         Some ((case children en of None \<Rightarrow> [] | Some cs \<Rightarrow> cs) @ news) \<and>
                       length news = length (filter (resolves E (path en)) ds) \<and>
                       inflated_children E (heap st') (nextref st) (nextref st') e (path en)
                         ds news))"
    by (elim exE conjE) (rule that, assumption, intro conjI)
  have rb: "requiredby en' =
             Some ((case requiredby en of None \<Rightarrow> [] | Some rb \<Rightarrow> rb) @
                   (if T \<in> set (case requiredby en of None \<Rightarrow> [] | Some rb \<Rightarrow> rb)
                    then [] else [T]))"
    using rest requiredby_noteRequiredby[of T en] by simp
  show "\<exists>st' r en en'.
              addChild E spc T st = Some (Inr (st', r)) \<and>
              heap st e = Some en \<and>
              name (package en) = name pkg \<and>
              satisfies E (version (package en))
                (if spec rq \<noteq> [] then spec rq else version pkg) \<and>
              heap st' e = Some en' \<and>
              requiredby en' =
                Some ((case requiredby en of None \<Rightarrow> [] | Some rb \<Rightarrow> rb) @
                      (if T \<in> set (case requiredby en of None \<Rightarrow> [] | Some rb \<Rightarrow> rb)
                       then [] else [T])) \<and>
              (\<forall>x n. x \<noteq> e \<and> heap st x = Some n \<longrightarrow> heap st' x = Some n) \<and>
              (loaded en \<longrightarrow> r = [Inr Undefined]) \<and>
              (\<not> loaded en \<and> (\<forall>ds. shrinkwrap pkg \<noteq> Some (Some ds)) \<longrightarrow> r = [Inr (Node e)]) \<and>
              (loaded en \<or> (\<forall>ds. shrinkwrap pkg \<noteq> Some (Some ds)) \<longrightarrow>
                 children en' = children en \<and> nextref st' = nextref st \<and>
                 (\<forall>x. nextref st \<le> x \<longrightarrow> heap st' x = None)) \<and>
              (\<forall>ds. \<not> loaded en \<and> shrinkwrap pkg = Some (Some ds) \<longrightarrow>
                 (\<forall>c. Inr (Node c) \<notin> set r) \<and>
                 (\<exists>news. children en' =
                            Some ((case children en of None \<Rightarrow> [] | Some cs \<Rightarrow> cs) @ news) \<and>
                          length news = length (filter (resolves E (path en)) ds) \<and>
                          inflated_children E (heap st') (nextref st) (nextref st') e (path en)
                            ds news))"
    apply (rule exI[of _ st'], rule exI[of _ r], rule exI[of _ en], rule exI[of _ en'])
    using a res en nm sat rb rest by simp
next
  assume met: "met_on_chain E (heap st) (name pkg)
                 (if spec rq \<noteq> [] then spec rq else version pkg) (T # up) = None"
  have none: "requirementExists E (heap st) T (name pkg)
               (if spec rq \<noteq> [] then spec rq else version pkg) = Some (Inr None)"
    using requirementExists_chain[OF chain] met by simp
  define P where "P = chosen_parent (heap st) (name pkg) (T # up)"
  define earliest where "earliest = earliest_on_chain (heap st) (name pkg) (T # up)"
  have ei: "earliestInstallable (heap st) T (name pkg) = Some (Inr earliest)"
    unfolding earliest_def by (rule earliestInstallable_chain[OF chain])
  have e: "(case earliest of Some a \<Rightarrow> a | None \<Rightarrow> T) = P"
    unfolding P_def earliest_def chosen_parent_earliest by (simp split: option.splits)
  have "P \<in> set (T # up)" unfolding P_def by (rule chosen_parent_on_chain)
  from is_chain_allocated[OF chain this]
  obtain pn cs where p: "heap st P = Some pn" "children pn = Some cs" by blast
  have a: "addChild E spc T st = Some (addChild_new E pkg T t earliest st)"
    using addChild_unfold[OF t f rq none] ei by simp
  from addChild_new_result[OF wf p e, of E pkg t]
  obtain st' r cn where
    "addChild_new E pkg T t earliest st = Inr (st', r)"
    "heap st' (nextref st) = Some cn" "package cn = pkg" "requiredby cn = Some [T]"
    by (elim exE conjE)
  moreover have "heap st (nextref st) = None" using wf by (simp add: wf_state_def)
  ultimately show "\<exists>st' r cn.
              addChild E spc T st = Some (Inr (st', r)) \<and>
              heap st (nextref st) = None \<and>
              heap st' (nextref st) = Some cn \<and> package cn = pkg \<and>
              requiredby cn = Some [T]"
    using a by (intro exI conjI) simp_all
qed

lemma wf_st_climb: "wf_state st_climb"
  by (auto simp: wf_state_def st_climb_def)

theorem addChild_requirement_met_witness:
  "wf_state st_climb \<and> is_chain (heap st_climb) [3, 2, 0] \<and>
   met_on_chain envW (heap st_climb) ''b'' ''2'' [3, 2, 0] = Some 1 \<and>
   (\<exists>st' r en'.
      addChild envW ''b@2'' 3 st_climb = Some (Inr (st', r)) \<and>
      heap st' 1 = Some en' \<and> requiredby en' = Some [3] \<and> r = [Inr (Node 1)] \<and>
      children en' = Some [] \<and> nextref st' = 4 \<and>
      heap st' 0 = heap st_climb 0 \<and> heap st' 3 = heap st_climb 3)"
proof -
  have t: "heap st_climb 3 = Some (nodeW ''t'' ''1'' [] (Some 2) False)"
    by (simp add: st_climb_def)
  have f: "fetchPackageMetadata envW ''b@2'' (path (nodeW ''t'' ''1'' [] (Some 2) False))
             = Inr (pkW ''b'' ''2'')"
    by (simp add: envW_def)
  have rq: "requested (pkW ''b'' ''2'') = Some \<lparr> spec = ''2'', rtype = ''version'' \<rparr>"
    by (simp add: pkW_def)
  have ch: "is_chain (heap st_climb) [3, 2, 0]" by code_simp
  have m0: "met_on_chain envW (heap st_climb) ''b'' ''2'' [3, 2, 0] = Some 1"
    by code_simp
  have m: "met_on_chain envW (heap st_climb) (name (pkW ''b'' ''2''))
              (if spec \<lparr> spec = ''2'', rtype = ''version'' \<rparr> \<noteq> []
               then spec \<lparr> spec = ''2'', rtype = ''version'' \<rparr> else version (pkW ''b'' ''2''))
              [3, 2, 0] = Some 1"
    using m0 by (simp add: pkW_def)
  have en: "heap st_climb 1 = Some (nodeW ''b'' ''2'' [] (Some 0) False)"
    by (simp add: st_climb_def)
  have h0: "heap st_climb 0 = Some (nodeW ''root'' ''1'' [1, 2] None False)"
    by (simp add: st_climb_def)
  from addChild_requirement_met[OF wf_st_climb t f rq ch, THEN conjunct1, rule_format, OF m]
  obtain st' r en0 en' where
    a: "addChild envW ''b@2'' 3 st_climb = Some (Inr (st', r))"
    and b: "heap st_climb 1 = Some en0"
    and c: "heap st' 1 = Some en'"
    and d: "requiredby en' =
             Some ((case requiredby en0 of None \<Rightarrow> [] | Some rb \<Rightarrow> rb) @
                   (if 3 \<in> set (case requiredby en0 of None \<Rightarrow> [] | Some rb \<Rightarrow> rb)
                    then [] else [3]))"
    and fr: "\<forall>x n. x \<noteq> 1 \<and> heap st_climb x = Some n \<longrightarrow> heap st' x = Some n"
    and g: "\<not> loaded en0 \<and> (\<forall>ds. shrinkwrap (pkW ''b'' ''2'') \<noteq> Some (Some ds))
              \<longrightarrow> r = [Inr (Node 1)]"
    and k: "loaded en0 \<or> (\<forall>ds. shrinkwrap (pkW ''b'' ''2'') \<noteq> Some (Some ds)) \<longrightarrow>
              children en' = children en0 \<and> nextref st' = nextref st_climb \<and>
              (\<forall>x. nextref st_climb \<le> x \<longrightarrow> heap st' x = None)"
    by (elim exE conjE)
  from b en have en0: "en0 = nodeW ''b'' ''2'' [] (Some 0) False" by simp
  have "requiredby en' = Some [3]" using d by (simp add: en0 nodeW_def)
  moreover have "r = [Inr (Node 1)]" using g by (simp add: en0 nodeW_def pkW_def)
  moreover have "children en' = Some [] \<and> nextref st' = 4"
    using k by (simp add: en0 nodeW_def pkW_def st_climb_def)
  moreover have "heap st' 0 = heap st_climb 0" using fr h0 by simp
  moreover have "heap st' 3 = heap st_climb 3" using fr t by simp
  ultimately have "\<exists>st' r en'.
      addChild envW ''b@2'' 3 st_climb = Some (Inr (st', r)) \<and>
      heap st' 1 = Some en' \<and> requiredby en' = Some [3] \<and> r = [Inr (Node 1)] \<and>
      children en' = Some [] \<and> nextref st' = 4 \<and>
      heap st' 0 = heap st_climb 0 \<and> heap st' 3 = heap st_climb 3"
    using a c by blast
  with wf_st_climb ch m0 show ?thesis by (intro conjI)
qed

text \<open>
  C1 as stated fails at three inputs.  (a) \<open>T\<close> (3) and \<open>b@2\<close> (2) are the children of
  \<open>b@1\<close> (1): the child 2 of the visited ancestor 1 matches \<open>b@2\<close>, yet a new node 4 is
  created under 1.  (b) The root has the loaded child \<open>b@2\<close>: the callback receives
  nothing, not the node.  (c) The root has the child \<open>s@1\<close>, not loaded, and the record
  resolved for \<open>s@1\<close> pins \<open>b@1\<close>: the existing node gains the child 2.
\<close>

theorem requirement_met_counterexample:
  "satisfying_on_walk envW (heap st_conflict) ''b'' ''2'' [3, 1] \<and>
   callback_of (addChild envW ''b@2'' 3 st_conflict) = Some [Inr (Node 4)] \<and>
   children_after (addChild envW ''b@2'' 3 st_conflict) 1 = Some [2, 3, 4] \<and>
   satisfying_on_walk envW (heap st_loaded) ''b'' ''2'' [0] \<and>
   callback_of (addChild envW ''b@2'' 0 st_loaded) = Some [Inr Undefined] \<and>
   satisfying_on_walk envW (heap st_sw) ''s'' ''1'' [0] \<and>
   callback_of (addChild envW ''s@1'' 0 st_sw) = Some [Inr Undefined] \<and>
   children_after (addChild envW ''s@1'' 0 st_sw) 1 = Some [2]"
  by code_simp

text \<open>
  C3.  When \<open>requirementExists\<close> returns the node \<open>e\<close> (record \<open>en\<close> before the call)
  for a resolved record with the descriptor \<open>rq\<close>, the descriptor of \<open>e\<close> afterwards is:
  \<open>rq\<close> itself if \<open>e\<close> had none and its version satisfies the spec of \<open>rq\<close>; the
  descriptor \<open>{spec: version of e, type: "version"}\<close> if \<open>e\<close> had none and its version
  does not satisfy the spec, followed by the append below when that spec differs from
  the spec of \<open>rq\<close>; the descriptor \<open>q\<close> it had if the specs agree; and \<open>q\<close> with the
  spec \<open>spec q + " " + spec rq\<close> and the type \<open>"range"\<close> if they differ.
\<close>

theorem addChild_merges_requested:
  assumes wf: "wf_state st"
    and t: "heap st T = Some t"
    and f: "fetchPackageMetadata E spc (path t) = Inr pkg"
    and rq: "requested pkg = Some rq"
    and re: "requirementExists E (heap st) T (name pkg)
               (if spec rq \<noteq> [] then spec rq else version pkg) = Some (Inr (Some e))"
    and en: "heap st e = Some en"
  shows "\<exists>st' r en'.
           addChild E spc T st = Some (Inr (st', r)) \<and>
           heap st' e = Some en' \<and>
           (requested (package en) = None \<and> satisfies E (version (package en)) (spec rq)
              \<longrightarrow> requested (package en') = Some rq) \<and>
           (requested (package en) = None \<and> \<not> satisfies E (version (package en)) (spec rq)
              \<and> version (package en) = spec rq
              \<longrightarrow> requested (package en') =
                    Some \<lparr> spec = version (package en), rtype = ''version'' \<rparr>) \<and>
           (requested (package en) = None \<and> \<not> satisfies E (version (package en)) (spec rq)
              \<and> version (package en) \<noteq> spec rq
              \<longrightarrow> requested (package en') =
                    Some \<lparr> spec = version (package en) @ '' '' @ spec rq, rtype = ''range'' \<rparr>) \<and>
           (\<forall>q. requested (package en) = Some q \<and> spec q = spec rq
              \<longrightarrow> requested (package en') = Some q) \<and>
           (\<forall>q. requested (package en) = Some q \<and> spec q \<noteq> spec rq
              \<longrightarrow> requested (package en') =
                    Some (q\<lparr> spec := spec q @ '' '' @ spec rq, rtype := ''range'' \<rparr>))"
proof -
  have a: "addChild E spc T st = Some (addChild_existing E pkg rq T t e st)"
    using addChild_unfold[OF t f rq re] by simp
  from addChild_existing_result[OF wf en, of E pkg rq T t]
  obtain st' r en' where res: "addChild_existing E pkg rq T t e st = Inr (st', r)"
    and h: "heap st' e = Some en'"
    and p: "package en' = package (mergeRequested E rq en)"
    by (elim exE conjE)
  have m: "requested (package en') =
      Some (let r0 = (case requested (package en) of
                        Some r \<Rightarrow> r
                      | None \<Rightarrow>
                          if satisfies E (version (package en)) (spec rq) then rq
                          else \<lparr> spec = version (package en), rtype = ''version'' \<rparr>)
            in if spec r0 \<noteq> spec rq
               then r0\<lparr> spec := spec r0 @ '' '' @ spec rq, rtype := ''range'' \<rparr>
               else r0)"
    unfolding p by (simp add: mergeRequested_def Let_def)
  show ?thesis
    apply (rule exI[of _ st'], rule exI[of _ r], rule exI[of _ en'])
    using a res h m by (auto simp: Let_def)
qed

lemma wf_st_tagged: "wf_state st_tagged"
  by (auto simp: wf_state_def st_tagged_def)

theorem addChild_merges_requested_witness:
  "wf_state st_tagged \<and>
   requirementExists envW (heap st_tagged) 0 ''b'' ''2'' = Some (Inr (Some 1)) \<and>
   (\<exists>st' r en'.
      addChild envW ''b@2'' 0 st_tagged = Some (Inr (st', r)) \<and>
      heap st' 1 = Some en' \<and>
      requested (package en') = Some \<lparr> spec = ''latest 2'', rtype = ''range'' \<rparr>)"
proof -
  have t: "heap st_tagged 0 = Some (nodeW ''root'' ''1'' [1] None False)"
    by (simp add: st_tagged_def)
  have f: "fetchPackageMetadata envW ''b@2'' (path (nodeW ''root'' ''1'' [1] None False))
             = Inr (pkW ''b'' ''2'')"
    by (simp add: envW_def)
  have rq: "requested (pkW ''b'' ''2'') = Some \<lparr> spec = ''2'', rtype = ''version'' \<rparr>"
    by (simp add: pkW_def)
  have re0: "requirementExists envW (heap st_tagged) 0 ''b'' ''2'' = Some (Inr (Some 1))"
    by code_simp
  have re: "requirementExists envW (heap st_tagged) 0 (name (pkW ''b'' ''2''))
              (if spec \<lparr> spec = ''2'', rtype = ''version'' \<rparr> \<noteq> []
               then spec \<lparr> spec = ''2'', rtype = ''version'' \<rparr> else version (pkW ''b'' ''2''))
            = Some (Inr (Some 1))"
    using re0 by (simp add: pkW_def)
  define en where "en = (nodeW ''b'' ''2'' [] (Some 0) True)
                      \<lparr> package := (pkW ''b'' ''2'')
                           \<lparr> requested := Some \<lparr> spec = ''latest'', rtype = ''tag'' \<rparr> \<rparr> \<rparr>"
  have en: "heap st_tagged 1 = Some en"
    by (simp add: st_tagged_def en_def)
  have q: "requested (package en) = Some \<lparr> spec = ''latest'', rtype = ''tag'' \<rparr>"
    by (simp add: en_def)
  from addChild_merges_requested[OF wf_st_tagged t f rq re en]
  obtain st' r en' where
    a: "addChild envW ''b@2'' 0 st_tagged = Some (Inr (st', r))"
    and c: "heap st' 1 = Some en'"
    and d: "\<forall>q. requested (package en) = Some q \<and>
                 spec q \<noteq> spec \<lparr> spec = ''2'', rtype = ''version'' \<rparr>
              \<longrightarrow> requested (package en') =
                    Some (q\<lparr> spec := spec q @ '' '' @ spec \<lparr> spec = ''2'', rtype = ''version'' \<rparr>,
                            rtype := ''range'' \<rparr>)"
    by (elim exE conjE)
  have "requested (package en') = Some \<lparr> spec = ''latest 2'', rtype = ''range'' \<rparr>"
    using d[rule_format, of "\<lparr> spec = ''latest'', rtype = ''tag'' \<rparr>"] q by simp
  with a c have "\<exists>st' r en'.
      addChild envW ''b@2'' 0 st_tagged = Some (Inr (st', r)) \<and>
      heap st' 1 = Some en' \<and>
      requested (package en') = Some \<lparr> spec = ''latest 2'', rtype = ''range'' \<rparr>"
    by blast
  with wf_st_tagged re0 show ?thesis by (intro conjI)
qed

lemma wf_st_hoist: "wf_state st_hoist"
  by (auto simp: wf_state_def st_hoist_def)

theorem addChild_places_under_chosen_parent_witness:
  "wf_state st_hoist \<and> is_chain (heap st_hoist) [3, 2, 0] \<and>
   requirementExists envW (heap st_hoist) 3 ''b'' ''2'' = Some (Inr None) \<and>
   chosen_parent (heap st_hoist) ''b'' [3, 2, 0] = 2 \<and>
   (\<exists>st' r cn.
      addChild envW ''b@2'' 3 st_hoist = Some (Inr (st', r)) \<and>
      heap st' 2 = Some ((nodeW ''p'' ''1'' [3] (Some 0) False)\<lparr>children := Some [3, 4]\<rparr>) \<and>
      heap st' 4 = Some cn \<and> package cn = pkW ''b'' ''2'' \<and> parent cn = Some 2 \<and>
      path cn = ''/p/node_modules/b'')"
proof -
  have t: "heap st_hoist 3 = Some (nodeW ''t'' ''1'' [] (Some 2) False)"
    by (simp add: st_hoist_def)
  have f: "fetchPackageMetadata envW ''b@2'' (path (nodeW ''t'' ''1'' [] (Some 2) False))
             = Inr (pkW ''b'' ''2'')"
    by (simp add: envW_def)
  have rq: "requested (pkW ''b'' ''2'') = Some \<lparr> spec = ''2'', rtype = ''version'' \<rparr>"
    by (simp add: pkW_def)
  have re0: "requirementExists envW (heap st_hoist) 3 ''b'' ''2'' = Some (Inr None)"
    by code_simp
  have re: "requirementExists envW (heap st_hoist) 3 (name (pkW ''b'' ''2''))
              (if spec \<lparr> spec = ''2'', rtype = ''version'' \<rparr> \<noteq> []
               then spec \<lparr> spec = ''2'', rtype = ''version'' \<rparr> else version (pkW ''b'' ''2''))
            = Some (Inr None)"
    using re0 by (simp add: pkW_def)
  have ch: "is_chain (heap st_hoist) [3, 2, 0]" by code_simp
  have cp0: "chosen_parent (heap st_hoist) ''b'' [3, 2, 0] = 2" by code_simp
  have cp: "chosen_parent (heap st_hoist) (name (pkW ''b'' ''2'')) [3, 2, 0] = 2"
    using cp0 by (simp add: pkW_def)
  have p: "heap st_hoist 2 = Some (nodeW ''p'' ''1'' [3] (Some 0) False)"
    by (simp add: st_hoist_def)
  from addChild_places_under_chosen_parent[OF wf_st_hoist t f rq re ch, unfolded cp]
  obtain st' r pn cs cn where
    a: "addChild envW ''b@2'' 3 st_hoist = Some (Inr (st', r))"
    and b: "heap st_hoist 2 = Some pn" "children pn = Some cs"
    and c: "heap st' 2 = Some (pn\<lparr>children := Some (cs @ [nextref st_hoist])\<rparr>)"
    and d: "heap st' (nextref st_hoist) = Some cn" "package cn = pkW ''b'' ''2''"
      "parent cn = Some 2"
      "path cn = path_join envW (path pn) ''node_modules'' (name (pkW ''b'' ''2''))"
    by (elim exE conjE)
  from b p have pn0: "pn = nodeW ''p'' ''1'' [3] (Some 0) False" by simp
  with b(2) have pn: "pn = nodeW ''p'' ''1'' [3] (Some 0) False" "cs = [3]"
    by (simp_all add: nodeW_def)
  have n: "nextref st_hoist = 4" by (simp add: st_hoist_def)
  have "heap st' 2 = Some ((nodeW ''p'' ''1'' [3] (Some 0) False)\<lparr>children := Some [3, 4]\<rparr>)"
    using c by (simp add: pn n)
  moreover have "heap st' 4 = Some cn" using d(1) by (simp add: n)
  moreover have "path cn = ''/p/node_modules/b''"
    using d(4) by (simp add: pn nodeW_def envW_def pkW_def)
  ultimately have "\<exists>st' r cn.
      addChild envW ''b@2'' 3 st_hoist = Some (Inr (st', r)) \<and>
      heap st' 2 = Some ((nodeW ''p'' ''1'' [3] (Some 0) False)\<lparr>children := Some [3, 4]\<rparr>) \<and>
      heap st' 4 = Some cn \<and> package cn = pkW ''b'' ''2'' \<and> parent cn = Some 2 \<and>
      path cn = ''/p/node_modules/b''"
    using a d(2) d(3) by blast
  with wf_st_hoist ch re0 cp0 show ?thesis by (intro conjI)
qed

text \<open>
  C8.  The parent link of a dev dependency is to be restored after its dependencies
  were loaded, on every outcome.  The callback of the recursive \<open>loadDeps\<close> returns
  with \<open>amcb(er)\<close> before the line that restores the link, so after a load error the
  link stays \<open>null\<close>.  The root declares the dev dependencies \<open>opt@1\<close>, whose own
  dependency \<open>bad@1\<close> does not resolve, and \<open>a@1\<close>, which has none: both are placed under
  the root (nodes 1 and 2); afterwards the parent link of \<open>a\<close> is the root again, and
  the parent link of \<open>opt\<close> is \<open>null\<close> although it is a child of the root.
\<close>

theorem loadDevDeps_error_leaves_parent_null:
  "map_option children (node_after (loadDevDeps envW 1 0 st_dev) 0) = Some (Some [1, 2]) \<and>
   map_option (\<lambda>n. name (package n)) (node_after (loadDevDeps envW 1 0 st_dev) 1) = Some ''opt'' \<and>
   map_option parent (node_after (loadDevDeps envW 1 0 st_dev) 1) = Some None \<and>
   map_option (\<lambda>n. name (package n)) (node_after (loadDevDeps envW 1 0 st_dev) 2) = Some ''a'' \<and>
   map_option parent (node_after (loadDevDeps envW 1 0 st_dev) 2) = Some (Some 0) \<and>
   error_after (loadDevDeps envW 1 0 st_dev) = Some [Some (Error ''404'' [''opt''])]"
  by code_simp



lemma caught_0 [simp]: "caught 0 am = am"
  by (simp add: caught_def)

lemma caught_Suc: "caught (Suc k) am = caught k (amcb (None, False) am)"
  by (simp add: caught_def funpow_swap1)


lemma errState_caught [simp]: "errState (caught k am) = errState am"
proof (induction k arbitrary: am)
  case 0
  show ?case by simp
next
  case (Suc k)
  show ?case
    by (simp add: caught_Suc Suc.IH) (simp add: amcb_def Let_def first_error_def split: option.splits)
qed

















lemma grows_cong:
  "heap a = heap a' \<Longrightarrow> nextref a = nextref a' \<Longrightarrow> heap b = heap b' \<Longrightarrow> nextref b = nextref b'
     \<Longrightarrow> grows E a b = grows E a' b'"
  by (simp add: grows_def)






















section \<open>Properties of the driver\<close>

lemma chain_steps_simps [simp]:
  "chain_steps [] = []"
  "chain_steps (None # xs) = chain_steps xs"
  "chain_steps (Some x # xs) = x # chain_steps xs"
  by (simp_all add: chain_steps_def map_filter_simps)

text \<open>
  C5.  The lock is to be released on every exit of the driver, and a failure of
  \<open>unlock\<close> after a primary error is to be logged while the callback receives the
  primary error.  The code does not do the second: whenever the pipeline ends with an
  error \<open>e1\<close> and \<open>unlock\<close> fails with \<open>e2\<close>, the callback of \<open>unlock\<close> throws a
  \<open>ReferenceError\<close> for the undeclared identifier \<open>namej\<close>, so nothing is logged and
  \<open>cb\<close> is never called.
\<close>

theorem unlockCB_both_errors_throws:
  "unlockCB (Some e1) (Some e2) = Inl (ReferenceError ''namej'')"
  by (simp add: unlockCB_def read_identifier_def unlockCB_scope_def install_js_scope_def)

text \<open>
  C9.  The hooks on the root package are to run if and only if no explicit install
  arguments were given.  For \<open>preinstall\<close>, \<open>build\<close>, \<open>postinstall\<close> and \<open>test\<close> the
  steps are guarded by \<open>! args.length\<close>; the step for \<open>prepublish\<close> is guarded by the
  production flag alone, so it runs with explicit arguments as well.
\<close>

theorem prepublish_runs_with_args:
  "(Action ''prepublish'' \<in> set (chain_steps (steps cfg args))) = (\<not> production cfg)"
  by (simp add: steps_def guarded_def)

lemma interleave_set: "t \<in> set (interleave xs ys) \<Longrightarrow> set t = set xs \<union> set ys"
  by (induction xs ys arbitrary: t rule: interleave.induct) auto

lemma interleave_nonempty: "interleave xs ys \<noteq> []"
  by (induction xs ys rule: interleave.induct) auto

lemma in_parallel_phase: "t \<in> set (in_parallel ph as) \<Longrightarrow> e \<in> set t \<Longrightarrow> event_phase e = ph"
proof (induction as arbitrary: t)
  case Nil
  then show ?case by simp
next
  case (Cons a as)
  from Cons.prems(1) obtain u where u: "u \<in> set (in_parallel ph as)"
    and t: "t \<in> set (interleave (run_entry ph a) u)"
    by auto
  from interleave_set[OF t] Cons.prems(2) have "e \<in> set (run_entry ph a) \<or> e \<in> set u" by simp
  then show ?case
  proof
    assume "e \<in> set (run_entry ph a)"
    then show ?thesis by (auto simp: run_entry_def)
  next
    assume "e \<in> set u"
    with Cons.IH[OF u] show ?thesis .
  qed
qed

lemma in_parallel_nonempty: "in_parallel ph as \<noteq> []"
proof (induction as)
  case Nil
  then show ?case by simp
next
  case (Cons a as)
  then obtain u us where "in_parallel ph as = u # us" by (cases "in_parallel ph as") auto
  then show ?case using interleave_nonempty[of "run_entry ph a" u] by simp
qed

lemma step_traces_phase:
  "t \<in> set (step_traces todo s) \<Longrightarrow> e \<in> set t \<Longrightarrow> step_phase s = Some (event_phase e)"
proof (cases s)
  case (DoParallel ph)
  assume "t \<in> set (step_traces todo s)" "e \<in> set t"
  with DoParallel show ?thesis
    using in_parallel_phase[of t ph "entries ph todo" e] by (simp add: doParallel_def)
next
  case (DoSerial ph)
  assume "t \<in> set (step_traces todo s)" "e \<in> set t"
  with DoSerial show ?thesis
    by (auto simp: doSerial_def run_entry_def)
qed auto

lemma step_traces_nonempty: "step_traces todo s \<noteq> []"
  by (cases s) (simp_all add: doParallel_def doSerial_def in_parallel_nonempty)

lemma chain_traces_nonempty: "chain_traces todo ss \<noteq> []"
proof (induction ss)
  case Nil
  then show ?case by simp
next
  case (Cons s ss)
  obtain a as where "step_traces todo s = a # as"
    using step_traces_nonempty[of todo s] by (cases "step_traces todo s") auto
  with Cons show ?case by simp
qed

lemma chain_traces_Cons:
  "tr \<in> set (chain_traces todo (s # ss)) \<longleftrightarrow>
     (\<exists>a b. tr = a @ b \<and> a \<in> set (step_traces todo s) \<and> b \<in> set (chain_traces todo ss))"
  by auto

lemma phase_names_Nil [simp]: "phase_names [] = []"
  by (simp add: phase_names_def map_filter_simps)

lemma phase_names_Cons:
  "phase_names (s # ss) = (case step_phase s of None \<Rightarrow> phase_names ss
                           | Some p \<Rightarrow> p # phase_names ss)"
  by (simp add: phase_names_def map_filter_simps split: option.splits)

lemma chain_traces_phase:
  "tr \<in> set (chain_traces todo ss) \<Longrightarrow> e \<in> set tr \<Longrightarrow> event_phase e \<in> set (phase_names ss)"
proof (induction ss arbitrary: tr)
  case Nil
  then show ?case by simp
next
  case (Cons s ss)
  from Cons.prems(1) obtain a b where tr: "tr = a @ b" and a: "a \<in> set (step_traces todo s)"
    and b: "b \<in> set (chain_traces todo ss)"
    unfolding chain_traces_Cons by blast
  from Cons.prems(2) tr have "e \<in> set a \<or> e \<in> set b" by simp
  then show ?case
  proof
    assume "e \<in> set a"
    from step_traces_phase[OF a this] show ?thesis by (simp add: phase_names_Cons)
  next
    assume "e \<in> set b"
    from Cons.IH[OF b this] show ?thesis by (simp add: phase_names_Cons split: option.splits)
  qed
qed

lemma chain_traces_sorted:
  "tr \<in> set (chain_traces todo ss) \<Longrightarrow> sorted (map phase_rank (phase_names ss))
     \<Longrightarrow> sorted (map (\<lambda>e. phase_rank (event_phase e)) tr)"
proof (induction ss arbitrary: tr)
  case Nil
  then show ?case by simp
next
  case (Cons s ss)
  from Cons.prems(1) obtain a b where tr: "tr = a @ b" and a: "a \<in> set (step_traces todo s)"
    and b: "b \<in> set (chain_traces todo ss)"
    unfolding chain_traces_Cons by blast
  have srest: "sorted (map phase_rank (phase_names ss))"
    using Cons.prems(2) by (simp add: phase_names_Cons split: option.splits)
  have sb: "sorted (map (\<lambda>e. phase_rank (event_phase e)) b)"
    by (rule Cons.IH[OF b srest])
  have sa: "sorted (map (\<lambda>e. phase_rank (event_phase e)) a)"
  proof (cases "step_phase s")
    case None
    have "a = []"
    proof (cases a)
      case (Cons e es)
      then have "e \<in> set a" by simp
      from step_traces_phase[OF \<open>a \<in> set (step_traces todo s)\<close> this] None show ?thesis by simp
    qed simp
    then show ?thesis by simp
  next
    case (Some p)
    have "\<forall>e \<in> set a. phase_rank (event_phase e) = phase_rank p"
      using step_traces_phase[OF a] Some by auto
    then have "map (\<lambda>e. phase_rank (event_phase e)) a = replicate (length a) (phase_rank p)"
      by (induction a) auto
    then show ?thesis by simp
  qed
  have cross: "\<forall>x \<in> set a. \<forall>y \<in> set b. phase_rank (event_phase x) \<le> phase_rank (event_phase y)"
  proof (intro ballI)
    fix x y assume x: "x \<in> set a" and y: "y \<in> set b"
    from step_traces_phase[OF a x] have sp: "step_phase s = Some (event_phase x)" .
    from chain_traces_phase[OF b y] have "event_phase y \<in> set (phase_names ss)" .
    then have "phase_rank (event_phase y) \<in> set (map phase_rank (phase_names ss))" by simp
    moreover have "sorted (phase_rank (event_phase x) # map phase_rank (phase_names ss))"
      using Cons.prems(2) sp by (simp add: phase_names_Cons)
    ultimately show "phase_rank (event_phase x) \<le> phase_rank (event_phase y)"
      by auto
  qed
  show ?case
    unfolding tr using sa sb cross by (simp add: sorted_append)
qed

lemma filter_none:
  "(\<forall>e \<in> set t. \<not> P e) \<Longrightarrow> filter P t = []"
  by (induction t) auto

lemma filter_all:
  "(\<forall>e \<in> set t. P e) \<Longrightarrow> filter P t = t"
  by (induction t) auto

lemma chain_traces_filter:
  "tr \<in> set (chain_traces todo ss) \<Longrightarrow> distinct (phase_names ss) \<Longrightarrow> s \<in> set ss
     \<Longrightarrow> step_phase s = Some p
     \<Longrightarrow> filter (\<lambda>e. event_phase e = p) tr \<in> set (step_traces todo s)"
proof (induction ss arbitrary: tr)
  case Nil
  then show ?case by simp
next
  case (Cons s0 ss)
  from Cons.prems(1) obtain a b where tr: "tr = a @ b" and a: "a \<in> set (step_traces todo s0)"
    and b: "b \<in> set (chain_traces todo ss)"
    unfolding chain_traces_Cons by blast
  have drest: "distinct (phase_names ss)"
    using Cons.prems(2) by (simp add: phase_names_Cons split: option.splits)
  show ?case
  proof (cases "step_phase s0 = Some p")
    case True
    then have notin: "p \<notin> set (phase_names ss)"
      using Cons.prems(2) by (simp add: phase_names_Cons)
    have fa: "filter (\<lambda>e. event_phase e = p) a = a"
      using step_traces_phase[OF a] True by (intro filter_all) auto
    have fb: "filter (\<lambda>e. event_phase e = p) b = []"
      using chain_traces_phase[OF b] notin by (intro filter_none) auto
    have same: "step_traces todo s0 = step_traces todo s"
    proof (cases "s = s0")
      case False
      with Cons.prems(3) have "s \<in> set ss" by simp
      then have "p \<in> set (phase_names ss)"
        using Cons.prems(4) by (induction ss) (auto simp: phase_names_Cons split: option.splits)
      with notin show ?thesis by simp
    qed simp
    show ?thesis unfolding tr using fa fb a same by simp
  next
    case False
    have fa: "filter (\<lambda>e. event_phase e = p) a = []"
      using step_traces_phase[OF a] False by (intro filter_none) auto
    from False Cons.prems(3,4) have "s \<in> set ss" by auto
    from Cons.IH[OF b drest this Cons.prems(4)] show ?thesis
      unfolding tr using fa by simp
  qed
qed

lemma step_in_phase_names:
  "s \<in> set ss \<Longrightarrow> step_phase s = Some p \<Longrightarrow> p \<in> set (phase_names ss)"
  by (induction ss) (auto simp: phase_names_Cons split: option.splits)

lemma chain_traces_any_parallel_order:
  "distinct (phase_names ss) \<Longrightarrow> s \<in> set ss \<Longrightarrow> step_phase s = Some p
     \<Longrightarrow> u \<in> set (step_traces todo s)
     \<Longrightarrow> \<exists>tr \<in> set (chain_traces todo ss). filter (\<lambda>e. event_phase e = p) tr = u"
proof (induction ss)
  case Nil
  then show ?case by simp
next
  case (Cons s0 ss)
  have drest: "distinct (phase_names ss)"
    using Cons.prems(1) by (simp add: phase_names_Cons split: option.splits)
  show ?case
  proof (cases "step_phase s0 = Some p")
    case True
    then have notin: "p \<notin> set (phase_names ss)"
      using Cons.prems(1) by (simp add: phase_names_Cons)
    have "s = s0"
    proof (rule ccontr)
      assume "s \<noteq> s0"
      with Cons.prems(2) have "s \<in> set ss" by simp
      from step_in_phase_names[OF this Cons.prems(3)] notin show False by simp
    qed
    obtain b where b: "b \<in> set (chain_traces todo ss)"
      using chain_traces_nonempty[of todo ss] by (cases "chain_traces todo ss") auto
    have fu: "filter (\<lambda>e. event_phase e = p) u = u"
      using step_traces_phase[OF Cons.prems(4)] Cons.prems(3) by (intro filter_all) auto
    have fb: "filter (\<lambda>e. event_phase e = p) b = []"
      using chain_traces_phase[OF b] notin by (intro filter_none) auto
    have "u @ b \<in> set (chain_traces todo (s0 # ss))"
      unfolding chain_traces_Cons using Cons.prems(4) b \<open>s = s0\<close> by blast
    moreover have "filter (\<lambda>e. event_phase e = p) (u @ b) = u" using fu fb by simp
    ultimately show ?thesis by blast
  next
    case False
    with Cons.prems(2,3) have "s \<in> set ss" by auto
    from Cons.IH[OF drest this Cons.prems(3) Cons.prems(4)]
    obtain tr where tr: "tr \<in> set (chain_traces todo ss)"
      and f: "filter (\<lambda>e. event_phase e = p) tr = u" by blast
    obtain a where a: "a \<in> set (step_traces todo s0)"
      using step_traces_nonempty[of todo s0] by (cases "step_traces todo s0") auto
    have fa: "filter (\<lambda>e. event_phase e = p) a = []"
      using step_traces_phase[OF a] False by (intro filter_none) auto
    have "a @ tr \<in> set (chain_traces todo (s0 # ss))"
      unfolding chain_traces_Cons using a tr by blast
    moreover have "filter (\<lambda>e. event_phase e = p) (a @ tr) = u" using fa f by simp
    ultimately show ?thesis by blast
  qed
qed

lemma in_parallel_events:
  "t \<in> set (in_parallel ph as) \<Longrightarrow> a \<in> set as
     \<Longrightarrow> Started ph a \<in> set t \<and> Completed ph a \<in> set t"
proof (induction as arbitrary: t)
  case Nil
  then show ?case by simp
next
  case (Cons b as)
  from Cons.prems(1) obtain u where u: "u \<in> set (in_parallel ph as)"
    and t: "t \<in> set (interleave (run_entry ph b) u)"
    by auto
  have st: "set t = set (run_entry ph b) \<union> set u" by (rule interleave_set[OF t])
  show ?case
  proof (cases "a = b")
    case True
    then show ?thesis using st by (simp add: run_entry_def)
  next
    case False
    with Cons.prems(2) have "a \<in> set as" by simp
    from Cons.IH[OF u this] st show ?thesis by simp
  qed
qed

lemma step_traces_events:
  "t \<in> set (step_traces todo s) \<Longrightarrow> step_phase s = Some p \<Longrightarrow> a \<in> set (entries p todo)
     \<Longrightarrow> Started p a \<in> set t \<and> Completed p a \<in> set t"
proof (cases s)
  case (DoParallel ph)
  assume "t \<in> set (step_traces todo s)" "step_phase s = Some p" "a \<in> set (entries p todo)"
  with DoParallel show ?thesis
    using in_parallel_events[of t p "entries p todo" a] by (simp add: doParallel_def)
next
  case (DoSerial ph)
  assume "t \<in> set (step_traces todo s)" "step_phase s = Some p" "a \<in> set (entries p todo)"
  with DoSerial show ?thesis
    by (auto simp: doSerial_def run_entry_def)
qed auto

lemma phase_steps_of_thenInstall:
  "filter (\<lambda>s. step_phase s \<noteq> None) (chain_steps (steps cfg args)) =
     [DoParallel ''fetch'', DoParallel ''extract'', DoParallel ''preinstall'',
      DoParallel ''build'', DoParallel ''remove'', DoSerial ''finalize'',
      DoSerial ''install'', DoSerial ''postinstall'']
     @ (if npat cfg then [DoParallel ''test''] else [])"
  by (simp add: steps_def guarded_def)

lemma phase_names_of_thenInstall:
  "phase_names (chain_steps (steps cfg args)) =
     [''fetch'', ''extract'', ''preinstall'', ''build'', ''remove'', ''finalize'',
      ''install'', ''postinstall''] @ (if npat cfg then [''test''] else [])"
  by (simp add: steps_def guarded_def phase_names_Cons)

lemma phase_names_sorted_distinct:
  "sorted (map phase_rank (phase_names (chain_steps (steps cfg args))))"
  "distinct (phase_names (chain_steps (steps cfg args)))"
  unfolding phase_names_of_thenInstall
  by (simp_all add: phase_rank_def phases_def)

text \<open>
  C4.  The steps of \<open>thenInstall\<close> that run action entries are, in array order,
  \<open>doParallel\<close> for fetch, extract, preinstall, build and remove, \<open>doSerial\<close> for
  finalize, install and postinstall, and \<open>doParallel\<close> for test when \<open>npat\<close> is set.
  For every run \<open>tr\<close> of the plan \<open>todo\<close> through these steps: the events are in the
  fixed order of the phases; an entry of one phase has completed before any entry of a
  later phase starts, and every entry of every phase that runs does start and complete;
  the events of a serial phase are exactly its entries one after the other in the
  order of \<open>todo\<close>; the events of a parallel phase are an interleaving of its entries,
  and every interleaving occurs in some run, so no order among them is guaranteed.
\<close>

theorem thenInstall_phases_in_order:
  assumes tr: "tr \<in> set (thenInstall_traces cfg args todo)"
  shows "filter (\<lambda>s. step_phase s \<noteq> None) (chain_steps (steps cfg args)) =
           [DoParallel ''fetch'', DoParallel ''extract'', DoParallel ''preinstall'',
            DoParallel ''build'', DoParallel ''remove'', DoSerial ''finalize'',
            DoSerial ''install'', DoSerial ''postinstall'']
           @ (if npat cfg then [DoParallel ''test''] else []) \<and>
         sorted (map (\<lambda>e. phase_rank (event_phase e)) tr) \<and>
         (\<forall>i j p a q b. i < length tr \<and> j < length tr \<and>
              tr ! i = Completed p a \<and> tr ! j = Started q b \<and> phase_rank p < phase_rank q
              \<longrightarrow> i < j) \<and>
         (\<forall>s p a. s \<in> set (chain_steps (steps cfg args)) \<and> step_phase s = Some p \<and>
              a \<in> set (entries p todo)
              \<longrightarrow> Started p a \<in> set tr \<and> Completed p a \<in> set tr) \<and>
         (\<forall>p. DoSerial p \<in> set (chain_steps (steps cfg args))
              \<longrightarrow> filter (\<lambda>e. event_phase e = p) tr
                    = concat (map (run_entry p) (entries p todo))) \<and>
         (\<forall>p. DoParallel p \<in> set (chain_steps (steps cfg args))
              \<longrightarrow> filter (\<lambda>e. event_phase e = p) tr \<in> set (in_parallel p (entries p todo)) \<and>
                  (\<forall>u \<in> set (in_parallel p (entries p todo)).
                     \<exists>tr' \<in> set (thenInstall_traces cfg args todo).
                       filter (\<lambda>e. event_phase e = p) tr' = u))"
proof -
  define ss where "ss = chain_steps (steps cfg args)"
  have mem: "tr \<in> set (chain_traces todo ss)"
    using tr by (simp add: thenInstall_traces_def ss_def)
  have so: "sorted (map phase_rank (phase_names ss))" and di: "distinct (phase_names ss)"
    unfolding ss_def by (rule phase_names_sorted_distinct)+
  have srt: "sorted (map (\<lambda>e. phase_rank (event_phase e)) tr)"
    by (rule chain_traces_sorted[OF mem so])
  have ord: "\<forall>i j p a q b. i < length tr \<and> j < length tr \<and>
              tr ! i = Completed p a \<and> tr ! j = Started q b \<and> phase_rank p < phase_rank q
              \<longrightarrow> i < j"
  proof (intro allI impI)
    fix i j p a q b
    assume h: "i < length tr \<and> j < length tr \<and>
              tr ! i = Completed p a \<and> tr ! j = Started q b \<and> phase_rank p < phase_rank q"
    show "i < j"
    proof (rule ccontr)
      assume "\<not> i < j"
      then have "j \<le> i" by simp
      with srt h have "map (\<lambda>e. phase_rank (event_phase e)) tr ! j
                       \<le> map (\<lambda>e. phase_rank (event_phase e)) tr ! i"
        by (intro sorted_nth_mono) simp_all
      with h show False by simp
    qed
  qed
  have ev: "\<forall>s p a. s \<in> set ss \<and> step_phase s = Some p \<and> a \<in> set (entries p todo)
              \<longrightarrow> Started p a \<in> set tr \<and> Completed p a \<in> set tr"
  proof (intro allI impI)
    fix s p a
    assume h: "s \<in> set ss \<and> step_phase s = Some p \<and> a \<in> set (entries p todo)"
    then have "filter (\<lambda>e. event_phase e = p) tr \<in> set (step_traces todo s)"
      using chain_traces_filter[OF mem di] by blast
    from step_traces_events[OF this] h
    have "Started p a \<in> set (filter (\<lambda>e. event_phase e = p) tr) \<and>
          Completed p a \<in> set (filter (\<lambda>e. event_phase e = p) tr)" by blast
    then show "Started p a \<in> set tr \<and> Completed p a \<in> set tr" by simp
  qed
  have ser: "\<forall>p. DoSerial p \<in> set ss
              \<longrightarrow> filter (\<lambda>e. event_phase e = p) tr
                    = concat (map (run_entry p) (entries p todo))"
  proof (intro allI impI)
    fix p assume "DoSerial p \<in> set ss"
    from chain_traces_filter[OF mem di this, of p]
    show "filter (\<lambda>e. event_phase e = p) tr = concat (map (run_entry p) (entries p todo))"
      by (simp add: doSerial_def)
  qed
  have par: "\<forall>p. DoParallel p \<in> set ss
              \<longrightarrow> filter (\<lambda>e. event_phase e = p) tr \<in> set (in_parallel p (entries p todo)) \<and>
                  (\<forall>u \<in> set (in_parallel p (entries p todo)).
                     \<exists>tr' \<in> set (chain_traces todo ss).
                       filter (\<lambda>e. event_phase e = p) tr' = u)"
  proof (intro allI impI conjI ballI)
    fix p assume p: "DoParallel p \<in> set ss"
    from chain_traces_filter[OF mem di this, of p]
    show "filter (\<lambda>e. event_phase e = p) tr \<in> set (in_parallel p (entries p todo))"
      by (simp add: doParallel_def)
    fix u assume "u \<in> set (in_parallel p (entries p todo))"
    then have "u \<in> set (step_traces todo (DoParallel p))" by (simp add: doParallel_def)
    from chain_traces_any_parallel_order[OF di p _ this, of p]
    show "\<exists>tr' \<in> set (chain_traces todo ss). filter (\<lambda>e. event_phase e = p) tr' = u"
      by simp
  qed
  show ?thesis
    using phase_steps_of_thenInstall[of cfg args] srt ord ev ser par
    unfolding ss_def thenInstall_traces_def by (intro conjI)
qed

theorem thenInstall_phases_in_order_witness:
  "ex_trace \<in> set (thenInstall_traces ex_cfg [] ex_todo) \<and>
   sorted (map (\<lambda>e. phase_rank (event_phase e)) ex_trace) \<and>
   filter (\<lambda>e. event_phase e = ''finalize'') ex_trace
     = [Started ''finalize'' 1, Completed ''finalize'' 1,
        Started ''finalize'' 2, Completed ''finalize'' 2] \<and>
   filter (\<lambda>e. event_phase e = ''fetch'') ex_trace \<in> set (in_parallel ''fetch'' [1, 2])"
proof -
  have mem: "ex_trace \<in> set (thenInstall_traces ex_cfg [] ex_todo)"
    by code_simp
  have s: "DoSerial ''finalize'' \<in> set (chain_steps (steps ex_cfg []))"
    and p: "DoParallel ''fetch'' \<in> set (chain_steps (steps ex_cfg []))"
    by (simp_all add: steps_def guarded_def)
  have e: "entries ''finalize'' ex_todo = [1, 2]" "entries ''fetch'' ex_todo = [1, 2]"
    by (simp_all add: entries_def ex_todo_def)
  note T = thenInstall_phases_in_order[OF mem]
  note a = T[THEN conjunct2, THEN conjunct1]
  note b = T[THEN conjunct2, THEN conjunct2, THEN conjunct2, THEN conjunct2, THEN conjunct1]
  note c = T[THEN conjunct2, THEN conjunct2, THEN conjunct2, THEN conjunct2, THEN conjunct2]
  from b[rule_format, OF s] have "filter (\<lambda>e. event_phase e = ''finalize'') ex_trace
                   = concat (map (run_entry ''finalize'') (entries ''finalize'' ex_todo))" .
  then have b': "filter (\<lambda>e. event_phase e = ''finalize'') ex_trace
     = [Started ''finalize'' 1, Completed ''finalize'' 1,
        Started ''finalize'' 2, Completed ''finalize'' 2]"
    unfolding e by (simp add: run_entry_def)
  from c[rule_format, OF p, THEN conjunct1]
  have "filter (\<lambda>e. event_phase e = ''fetch'') ex_trace
                   \<in> set (in_parallel ''fetch'' (entries ''fetch'' ex_todo))" .
  then have c': "filter (\<lambda>e. event_phase e = ''fetch'') ex_trace \<in> set (in_parallel ''fetch'' [1, 2])"
    unfolding e .
  from mem a b' c' show ?thesis by (intro conjI)
qed

end
